theory Spec2Isabelle
  imports Main
begin

section \<open>Go library functions the template engine relies on\<close>

text \<open>
  Go strings are byte sequences; they are modelled as \<^typ>\<open>string\<close> (lists of bytes).
  The three patterns of the program only mention ASCII characters, and a negated class
  such as \<open>[^%]\<close> accepts every byte of a multi-byte rune, so matching byte by byte gives the
  same spans and the same captured groups as matching rune by rune.
\<close>

subsection \<open>strings.TrimSpace\<close>

text \<open>
  The UTF-8 encodings of the runes for which \<open>unicode.IsSpace\<close> holds: the six ASCII ones,
  U+0085, U+00A0, U+1680, U+2000 to U+200A, U+2028, U+2029, U+202F, U+205F and U+3000.
\<close>

definition spaceRunes :: "string list" where
  "spaceRunes =
    [[CHR 0x09], [CHR 0x0A], [CHR 0x0B], [CHR 0x0C], [CHR 0x0D], [CHR 0x20],
     [CHR 0xC2, CHR 0x85], [CHR 0xC2, CHR 0xA0], [CHR 0xE1, CHR 0x9A, CHR 0x80],
     [CHR 0xE2, CHR 0x80, CHR 0x80], [CHR 0xE2, CHR 0x80, CHR 0x81],
     [CHR 0xE2, CHR 0x80, CHR 0x82], [CHR 0xE2, CHR 0x80, CHR 0x83],
     [CHR 0xE2, CHR 0x80, CHR 0x84], [CHR 0xE2, CHR 0x80, CHR 0x85],
     [CHR 0xE2, CHR 0x80, CHR 0x86], [CHR 0xE2, CHR 0x80, CHR 0x87],
     [CHR 0xE2, CHR 0x80, CHR 0x88], [CHR 0xE2, CHR 0x80, CHR 0x89],
     [CHR 0xE2, CHR 0x80, CHR 0x8A], [CHR 0xE2, CHR 0x80, CHR 0xA8],
     [CHR 0xE2, CHR 0x80, CHR 0xA9], [CHR 0xE2, CHR 0x80, CHR 0xAF],
     [CHR 0xE2, CHR 0x81, CHR 0x9F], [CHR 0xE3, CHR 0x80, CHR 0x80]]"

text \<open>The byte width of the space rune the string starts with, 0 when it starts with none.\<close>

fun leadingSpace :: "string list \<Rightarrow> string \<Rightarrow> nat" where
  "leadingSpace [] s = 0"
| "leadingSpace (r # rs) s =
     (if r \<noteq> [] \<and> take (length r) s = r then length r else leadingSpace rs s)"

lemma leadingSpace_le: "leadingSpace rs s \<le> length s"
proof (induction rs)
  case Nil
  show ?case by simp
next
  case (Cons r rs)
  have "take (length r) s = r \<Longrightarrow> length r \<le> length s"
    by (metis length_take min.cobounded1)
  with Cons show ?case by simp
qed

function trimLeftRunes :: "string list \<Rightarrow> string \<Rightarrow> string" where
  "trimLeftRunes rs s =
     (let k = leadingSpace rs s in if k = 0 then s else trimLeftRunes rs (drop k s))"
  by pat_completeness auto
termination
proof (relation "measure (\<lambda>(rs, s). length s)")
  show "wf (measure (\<lambda>(rs, s). length s))" by simp
next
  fix rs :: "string list" and s :: string and k :: nat
  assume "k = leadingSpace rs s" and "k \<noteq> 0"
  moreover have "leadingSpace rs s \<le> length s" by (rule leadingSpace_le)
  ultimately show "((rs, drop k s), (rs, s)) \<in> measure (\<lambda>(rs, s). length s)"
    by simp
qed

declare trimLeftRunes.simps [simp del]

text \<open>
  \<open>TrimSpace\<close> removes the space runes at the front, then the ones at the back of what is
  left (an invalid or non-space rune stops either scan).
\<close>

definition TrimSpace :: "string \<Rightarrow> string" where
  "TrimSpace s = rev (trimLeftRunes (map rev spaceRunes) (rev (trimLeftRunes spaceRunes s)))"

subsection \<open>strings.Contains, HasPrefix, HasSuffix, Split, SplitN with a one-byte separator\<close>

definition Contains :: "string \<Rightarrow> char \<Rightarrow> bool" where
  "Contains s c \<longleftrightarrow> c \<in> set s"

definition HasPrefix :: "string \<Rightarrow> string \<Rightarrow> bool" where
  "HasPrefix s p \<longleftrightarrow> take (length p) s = p"

definition HasSuffix :: "string \<Rightarrow> string \<Rightarrow> bool" where
  "HasSuffix s p \<longleftrightarrow> length p \<le> length s \<and> drop (length s - length p) s = p"

definition TrimPrefix :: "string \<Rightarrow> string \<Rightarrow> string" where
  "TrimPrefix s p = (if HasPrefix s p then drop (length p) s else s)"

text \<open>\<open>strings.Split(s, sep)\<close>: every occurrence of the separator splits.\<close>

fun Split :: "string \<Rightarrow> char \<Rightarrow> string list" where
  "Split [] c = [[]]"
| "Split (x # xs) c =
     (if x = c then [] # Split xs c
      else (case Split xs c of [] \<Rightarrow> [[x]] | p # ps \<Rightarrow> (x # p) # ps))"

text \<open>\<open>strings.SplitN(s, sep, 2)\<close>: only the first occurrence splits.\<close>

definition SplitN2 :: "string \<Rightarrow> char \<Rightarrow> string list" where
  "SplitN2 s c =
     (case dropWhile (\<lambda>x. x \<noteq> c) s of
        [] \<Rightarrow> [s]
      | _ # r \<Rightarrow> [takeWhile (\<lambda>x. x \<noteq> c) s, r])"

subsection \<open>strconv.Atoi and strconv.Itoa, with a 64-bit int\<close>

definition isDigit :: "char \<Rightarrow> bool" where
  "isDigit c \<longleftrightarrow> (48::nat) \<le> of_char c \<and> (of_char c :: nat) \<le> 57"

definition decimal :: "string \<Rightarrow> int" where
  "decimal ds = foldl (\<lambda>n c. n * 10 + (of_char c - 48)) (0::int) ds"

text \<open>
  \<open>Atoi\<close> accepts an optional sign followed by one or more decimal digits, and fails
  (\<open>None\<close>) on anything else and on a value outside the range of int.
\<close>

definition Atoi :: "string \<Rightarrow> int option" where
  "Atoi s =
     (let neg = (s \<noteq> [] \<and> hd s = CHR ''-'');
          ds = (if s \<noteq> [] \<and> (hd s = CHR ''-'' \<or> hd s = CHR ''+'') then tl s else s)
      in if ds = [] \<or> \<not> list_all isDigit ds then None
         else let v = (if neg then - decimal ds else decimal ds)
              in if - (2 ^ 63) \<le> v \<and> v < 2 ^ 63 then Some v else None)"

function digits :: "int \<Rightarrow> string" where
  "digits n = (if n < 10 then [char_of (48 + n)] else digits (n div 10) @ [char_of (48 + n mod 10)])"
  by pat_completeness auto
termination
  by (relation "measure nat") auto

declare digits.simps [simp del]

definition Itoa :: "int \<Rightarrow> string" where
  "Itoa i = (if i < 0 then CHR ''-'' # digits (- i) else digits i)"

text \<open>Addition of two ints wraps around in 64-bit two's complement.\<close>

definition addInt :: "int \<Rightarrow> int \<Rightarrow> int" where
  "addInt a b = (a + b + 2 ^ 63) mod 2 ^ 64 - 2 ^ 63"

subsection \<open>regexp: leftmost-first matching of the three patterns\<close>

text \<open>
  The character classes the patterns use: \<open>\s\<close> (tab, newline, form feed, carriage return,
  space) and the negated one-character classes \<open>[^c]\<close>, which also accept a newline.
\<close>

datatype cls = Space | Except char

fun inClass :: "cls \<Rightarrow> char \<Rightarrow> bool" where
  "inClass Space c = (c \<in> set [CHR 0x09, CHR 0x0A, CHR 0x0C, CHR 0x0D, CHR 0x20])"
| "inClass (Except x) c = (c \<noteq> x)"

text \<open>A pattern is a sequence of literals, single classes and greedy repetitions of a class.\<close>

datatype atom = Lit string | One cls | Star cls | Plus cls

text \<open>
  \<open>run as s\<close> lists what is left of \<open>s\<close> after each way of matching the atoms at its front,
  in the order a backtracking matcher tries them: a greedy repetition first takes one more
  character, and only then stops. The first entry is the match that regexp reports.
\<close>

fun run :: "atom list \<Rightarrow> string \<Rightarrow> string list" where
  "run [] s = [s]"
| "run (Lit l # as) s = (if take (length l) s = l then run as (drop (length l) s) else [])"
| "run (One c # as) [] = []"
| "run (One c # as) (x # xs) = (if inClass c x then run as xs else [])"
| "run (Star c # as) [] = run as []"
| "run (Star c # as) (x # xs) =
     (if inClass c x then run (Star c # as) xs @ run as (x # xs) else run as (x # xs))"
| "run (Plus c # as) [] = []"
| "run (Plus c # as) (x # xs) = (if inClass c x then run (Star c # as) xs else [])"

text \<open>Each pattern has exactly one capture group: what precedes it, the group, what follows.\<close>

datatype regex = Regex (pre: "atom list") (grp: "atom list") (post: "atom list")

text \<open>The match starting at the front of the string: its length and the text of group 1.\<close>

definition matchHere :: "regex \<Rightarrow> string \<Rightarrow> (nat \<times> string) option" where
  "matchHere r s =
     (case [(s1, s2, s3). s1 \<leftarrow> run (pre r) s, s2 \<leftarrow> run (grp r) s1, s3 \<leftarrow> run (post r) s2] of
        [] \<Rightarrow> None
      | (s1, s2, s3) # _ \<Rightarrow> Some (length s - length s3, take (length s1 - length s2) s1))"

text \<open>
  \<open>FindStringSubmatch\<close>: the leftmost match, as the list of the whole match and group 1;
  the empty list stands for nil.
\<close>

fun FindStringSubmatch :: "regex \<Rightarrow> string \<Rightarrow> string list" where
  "FindStringSubmatch r [] =
     (case matchHere r [] of None \<Rightarrow> [] | Some (n, g) \<Rightarrow> [[], g])"
| "FindStringSubmatch r (x # xs) =
     (case matchHere r (x # xs) of
        None \<Rightarrow> FindStringSubmatch r xs
      | Some (n, g) \<Rightarrow> [take n (x # xs), g])"

text \<open>
  \<open>ReplaceAllStringFunc\<close> walks the text from left to right: the leftmost match from the
  current position is handed to the callback and the search goes on behind it; the text
  between matches is copied. \<open>pieces\<close> is that walk: the copied characters and the matched
  spans, in order. None of the three patterns matches the empty string, so the special
  treatment regexp gives to empty matches never applies.
\<close>

datatype piece = Plain char | Matched string

function pieces :: "regex \<Rightarrow> string \<Rightarrow> piece list" where
  "pieces r [] = []"
| "pieces r (x # xs) =
     (case matchHere r (x # xs) of
        None \<Rightarrow> Plain x # pieces r xs
      | Some (n, g) \<Rightarrow>
          if 0 < n then Matched (take n (x # xs)) # pieces r (drop n (x # xs))
          else Plain x # pieces r xs)"
  by pat_completeness auto
termination
  by (relation "measure (\<lambda>(r, s). length s)") auto

declare pieces.simps [simp del]

section \<open>The template processor (development server)\<close>

subsection \<open>The three patterns\<close>

text \<open>\<^verbatim>\<open><%@include\s+file="([^"]+)"\s*%>\<close>\<close>

definition includeRegex :: regex where
  "includeRegex =
     Regex [Lit ''<%@include'', Plus Space, Lit ''file=\"'']
           [Plus (Except (CHR 0x22))]
           [Lit ''\"'', Star Space, Lit ''%>'']"

text \<open>\<^verbatim>\<open><%\s*([^=][^%]*)\s*%>\<close>\<close>

definition codeRegex :: regex where
  "codeRegex =
     Regex [Lit ''<%'', Star Space]
           [One (Except CHR ''=''), Star (Except CHR ''%'')]
           [Star Space, Lit ''%>'']"

text \<open>\<^verbatim>\<open><%=\s*([^%]+)\s*%>\<close>\<close>

definition outputRegex :: regex where
  "outputRegex =
     Regex [Lit ''<%='', Star Space]
           [Plus (Except CHR ''%'')]
           [Star Space, Lit ''%>'']"

subsection \<open>State of a render\<close>

text \<open>
  \<open>tp.data\<close> maps a name to an \<open>interface{}\<close>: the strings that code blocks assign, and the
  four objects the request handler binds before the expansion starts.
\<close>

datatype val = VString string | VRequest | VParams | VQuery | VForm

type_synonym scope = "string \<rightharpoonup> val"

text \<open>
  What the program reads from the request (\<open>echo.Context\<close>): the four fields of the
  request table, the path of the URL, the query and form lookups (the empty string for an
  absent parameter),
  and the text \<open>fmt\<close> prints with \<open>%v\<close> for each of the four bound objects. The request is
  taken as fixed during one render.
\<close>

record echoContext =
  Method :: string
  URL :: string
  URLPath :: string
  Host :: string
  RemoteAddr :: string
  QueryParam :: "string \<Rightarrow> string"
  FormValue :: "string \<Rightarrow> string"
  showRequest :: string
  showParams :: string
  showQuery :: string
  showForm :: string

text \<open>\<open>fmt.Sprintf("%v", value)\<close>\<close>

fun Sprintf_v :: "echoContext \<Rightarrow> val \<Rightarrow> string" where
  "Sprintf_v c (VString s) = s"
| "Sprintf_v c VRequest = showRequest c"
| "Sprintf_v c VParams = showParams c"
| "Sprintf_v c VQuery = showQuery c"
| "Sprintf_v c VForm = showForm c"

text \<open>
  The files under the root directory, as the program sees them: \<open>notExist f\<close> is
  \<open>os.IsNotExist\<close> of the error of \<open>os.Stat(filepath.Join(rootPath, f))\<close>, and \<open>readFile f\<close> is
  the result of \<open>ioutil.ReadFile(filepath.Join(rootPath, f))\<close>: the text of the error, or the
  content.
\<close>

record files =
  notExist :: "string \<Rightarrow> bool"
  readFile :: "string \<Rightarrow> string + string"

text \<open>A call either returns or panics; a call that never returns has no outcome at all.\<close>

datatype 'a outcome = Return 'a | Panic string

subsection \<open>processIncludes\<close>

text \<open>
  \<open>ReplaceAllStringFunc\<close> with a callback that may fail to return: the replacements are
  computed from left to right, and the call returns only if every callback does.
\<close>

fun replaceAllOpt :: "(string \<Rightarrow> string option) \<Rightarrow> piece list \<Rightarrow> string option" where
  "replaceAllOpt f [] = Some []"
| "replaceAllOpt f (Plain c # ps) = map_option ((#) c) (replaceAllOpt f ps)"
| "replaceAllOpt f (Matched match # ps) =
     (case f match of
        None \<Rightarrow> None
      | Some repl \<Rightarrow> map_option ((@) repl) (replaceAllOpt f ps))"

text \<open>
  The callback of the include pass; \<open>recurse\<close> is the recursive call of \<open>processIncludes\<close> on
  the content of the included file.
\<close>

definition includeCallback :: "files \<Rightarrow> (string \<Rightarrow> string option) \<Rightarrow> string \<Rightarrow> string option" where
  "includeCallback fs recurse match =
     (case FindStringSubmatch includeRegex match of
        [m0, includeFile] \<Rightarrow>
          (case readFile fs includeFile of
             Inl err \<Rightarrow> Some (''<!-- Include error: '' @ err @ '' -->'')
           | Inr includeContent \<Rightarrow> recurse includeContent)
      | _ \<Rightarrow> Some match)"

text \<open>
  The function calls itself on the content of every included file. The first argument
  bounds the depth of these calls: \<open>None\<close> means that the bound was not enough. A call
  returns when some bound is enough, and does not return when none is.
\<close>

primrec processIncludes :: "nat \<Rightarrow> files \<Rightarrow> string \<Rightarrow> string option" where
  "processIncludes 0 fs content = None"
| "processIncludes (Suc k) fs content =
     replaceAllOpt (includeCallback fs (processIncludes k fs)) (pieces includeRegex content)"

subsection \<open>processCodeExpressions\<close>

text \<open>
  The callback of the code pass: the replacement text and the updated \<open>tp.data\<close>. The slice
  \<open>varValue[1 : len(varValue)-1]\<close> panics when the value is a single double quote.
\<close>

definition codeCallback :: "scope \<Rightarrow> string \<Rightarrow> (string \<times> scope) outcome" where
  "codeCallback data match =
     (case FindStringSubmatch codeRegex match of
        [m0, m1] \<Rightarrow>
          (let code = TrimSpace m1 in
           if Contains code CHR ''='' then
             (case SplitN2 code CHR ''='' of
                [p0, p1] \<Rightarrow>
                  (let varName = TrimSpace p0; varValue = TrimSpace p1 in
                   if HasPrefix varValue ''\"'' \<and> HasSuffix varValue ''\"'' then
                     (if 1 \<le> length varValue - 1
                      then Return ([], data(varName \<mapsto>
                             VString (take (length varValue - 1 - 1) (drop 1 varValue))))
                      else Panic ''slice bounds out of range [1:0]'')
                   else Return ([], data(varName \<mapsto> VString varValue)))
              | _ \<Rightarrow> Return ([], data))
           else Return ([], data))
      | _ \<Rightarrow> Return (match, data))"

fun codePieces :: "scope \<Rightarrow> piece list \<Rightarrow> (string \<times> scope) outcome" where
  "codePieces data [] = Return ([], data)"
| "codePieces data (Plain c # ps) =
     (case codePieces data ps of
        Return (out, data') \<Rightarrow> Return (c # out, data')
      | Panic e \<Rightarrow> Panic e)"
| "codePieces data (Matched match # ps) =
     (case codeCallback data match of
        Panic e \<Rightarrow> Panic e
      | Return (repl, data1) \<Rightarrow>
          (case codePieces data1 ps of
             Return (out, data') \<Rightarrow> Return (repl @ out, data')
           | Panic e \<Rightarrow> Panic e))"

definition processCodeExpressions :: "scope \<Rightarrow> string \<Rightarrow> (string \<times> scope) outcome" where
  "processCodeExpressions data content = codePieces data (pieces codeRegex content)"

subsection \<open>processOutputTags\<close>

definition handleRequestExpression :: "echoContext \<Rightarrow> string \<Rightarrow> string" where
  "handleRequestExpression c expression =
     (if expression = ''request.method'' then Method c
      else if expression = ''request.url'' then URL c
      else if expression = ''request.host'' then Host c
      else if expression = ''request.remoteaddr'' then RemoteAddr c
      else expression)"

definition evaluateSimpleExpression :: "string \<Rightarrow> string" where
  "evaluateSimpleExpression expression =
     (case Split expression CHR ''+'' of
        [p0, p1] \<Rightarrow>
          (let left = TrimSpace p0; right = TrimSpace p1 in
           case Atoi left of
             Some leftVal \<Rightarrow>
               (case Atoi right of
                  Some rightVal \<Rightarrow> Itoa (addInt leftVal rightVal)
                | None \<Rightarrow> left @ right)
           | None \<Rightarrow> left @ right)
      | _ \<Rightarrow>
          (case Atoi (TrimSpace expression) of
             Some val \<Rightarrow> Itoa val
           | None \<Rightarrow> expression))"

text \<open>What an output tag is replaced with, once its expression is trimmed.\<close>

definition evaluate :: "scope \<Rightarrow> echoContext \<Rightarrow> string \<Rightarrow> string" where
  "evaluate data c expression =
     (case data expression of
        Some v \<Rightarrow> Sprintf_v c v
      | None \<Rightarrow>
          if HasPrefix expression ''request.'' then handleRequestExpression c expression
          else if HasPrefix expression ''query.'' then QueryParam c (TrimPrefix expression ''query.'')
          else if HasPrefix expression ''form.'' then FormValue c (TrimPrefix expression ''form.'')
          else if Contains expression CHR ''+'' then evaluateSimpleExpression expression
          else expression)"

definition outputCallback :: "scope \<Rightarrow> echoContext \<Rightarrow> string \<Rightarrow> string" where
  "outputCallback data c match =
     (case FindStringSubmatch outputRegex match of
        [m0, m1] \<Rightarrow> evaluate data c (TrimSpace m1)
      | _ \<Rightarrow> match)"

text \<open>\<open>ReplaceAllStringFunc\<close> with a callback that always returns.\<close>

fun replaceAll :: "(string \<Rightarrow> string) \<Rightarrow> piece list \<Rightarrow> string" where
  "replaceAll f [] = []"
| "replaceAll f (Plain c # ps) = c # replaceAll f ps"
| "replaceAll f (Matched match # ps) = f match @ replaceAll f ps"

definition processOutputTags :: "scope \<Rightarrow> echoContext \<Rightarrow> string \<Rightarrow> string" where
  "processOutputTags data c content =
     replaceAll (outputCallback data c) (pieces outputRegex content)"

subsection \<open>TemplateProcessor.processTemplate and the request handler\<close>

text \<open>
  The method returns the expanded content and an error; the final \<open>tp.data\<close> is returned
  along with them, so that the effect of the expansion on the scope can be stated.
\<close>

definition TemplateProcessor_processTemplate ::
  "nat \<Rightarrow> files \<Rightarrow> echoContext \<Rightarrow> scope \<Rightarrow> string \<Rightarrow> (string \<times> string option \<times> scope) outcome option" where
  "TemplateProcessor_processTemplate k fs c data content =
     (case processIncludes k fs content of
        None \<Rightarrow> None
      | Some content1 \<Rightarrow>
          (case processCodeExpressions data content1 of
             Panic e \<Rightarrow> Some (Panic e)
           | Return (content2, data') \<Rightarrow>
               Some (Return (processOutputTags data' c content2, None, data'))))"

datatype response = String nat string | HTML nat string

definition requestData :: scope where
  "requestData = [''request'' \<mapsto> VRequest, ''params'' \<mapsto> VParams,
                  ''query'' \<mapsto> VQuery, ''form'' \<mapsto> VForm]"

definition processTemplate :: "nat \<Rightarrow> files \<Rightarrow> echoContext \<Rightarrow> string \<Rightarrow> response outcome option" where
  "processTemplate k fs c filename =
     (if notExist fs filename then Some (Return (String 404 (''File not found: '' @ filename)))
      else case readFile fs filename of
        Inl err \<Rightarrow> Some (Return (String 500 (''Error reading file: '' @ err)))
      | Inr content \<Rightarrow>
          (case TemplateProcessor_processTemplate k fs c requestData content of
             None \<Rightarrow> None
           | Some (Panic e) \<Rightarrow> Some (Panic e)
           | Some (Return (processedContent, Some err, data')) \<Rightarrow>
               Some (Return (String 500 (''Template processing error: '' @ err)))
           | Some (Return (processedContent, None, data')) \<Rightarrow>
               Some (Return (HTML 200 processedContent))))"

subsection \<open>Routes\<close>

record Route =
  Path :: string
  File :: string
  Methods :: "string list"

text \<open>
  The two handlers, and the calls that register a handler with the router. \<open>setupRoutes\<close>
  is modelled by the list of the registrations it makes, in order. \<open>strings.ToUpper\<close> is a
  parameter (\<open>upper\<close>): its case tables are not modelled.
\<close>

definition createHandler :: "string \<Rightarrow> nat \<Rightarrow> files \<Rightarrow> echoContext \<Rightarrow> response outcome option" where
  "createHandler filename k fs c = processTemplate k fs c filename"

definition fileBasedHandler :: "nat \<Rightarrow> files \<Rightarrow> echoContext \<Rightarrow> response outcome option" where
  "fileBasedHandler k fs c =
     (let path = (if URLPath c = ''/'' then ''/index'' else URLPath c);
          filename = TrimPrefix path ''/'' @ ''.html''
      in processTemplate k fs c filename)"

datatype handler = CreateHandler string | FileBasedHandler

datatype registration =
    GET string handler | POST string handler | PUT string handler
  | DELETE string handler | PATCH string handler | Any string handler

definition setupRoutes :: "(string \<Rightarrow> string) \<Rightarrow> Route list \<Rightarrow> registration list" where
  "setupRoutes upper routes =
     concat (map (\<lambda>route. concat (map (\<lambda>method.
        let m = upper method in
        if m = ''GET'' then [GET (Path route) (CreateHandler (File route))]
        else if m = ''POST'' then [POST (Path route) (CreateHandler (File route))]
        else if m = ''PUT'' then [PUT (Path route) (CreateHandler (File route))]
        else if m = ''DELETE'' then [DELETE (Path route) (CreateHandler (File route))]
        else if m = ''PATCH'' then [PATCH (Path route) (CreateHandler (File route))]
        else if m = ''ANY'' then [Any (Path route) (CreateHandler (File route))]
        else []) (Methods route))) routes)
     @ [Any ''/*'' FileBasedHandler]"

text \<open>What a registered handler does with a request.\<close>

fun serve :: "nat \<Rightarrow> files \<Rightarrow> echoContext \<Rightarrow> handler \<Rightarrow> response outcome option" where
  "serve k fs c (CreateHandler filename) = createHandler filename k fs c"
| "serve k fs c FileBasedHandler = fileBasedHandler k fs c"

section \<open>The generated program (compiled mode)\<close>

text \<open>
  \<open>compiledMainTemplate\<close> is the source of the program that \<open>compile\<close> generates. Its
  \<open>embeddedTemplates\<close> table and \<open>embeddedRoutes\<close> are parameters here. Its scanner patterns are
  those of the server, and its \<open>processCodeExpressions\<close> has, statement for statement, the
  callback of the server.
\<close>

type_synonym templates = "string \<rightharpoonup> string"

definition embedded_includeCallback ::
  "templates \<Rightarrow> (string \<Rightarrow> string option) \<Rightarrow> string \<Rightarrow> string option" where
  "embedded_includeCallback embeddedTemplates recurse match =
     (case FindStringSubmatch includeRegex match of
        [m0, includeFile] \<Rightarrow>
          (case embeddedTemplates includeFile of
             None \<Rightarrow> Some (''<!-- Include error: template '' @ includeFile @ '' not found -->'')
           | Some includeContent \<Rightarrow> recurse includeContent)
      | _ \<Rightarrow> Some match)"

primrec embedded_processIncludes :: "nat \<Rightarrow> templates \<Rightarrow> string \<Rightarrow> string option" where
  "embedded_processIncludes 0 embeddedTemplates content = None"
| "embedded_processIncludes (Suc k) embeddedTemplates content =
     replaceAllOpt
       (embedded_includeCallback embeddedTemplates (embedded_processIncludes k embeddedTemplates))
       (pieces includeRegex content)"

definition embedded_processCodeExpressions :: "scope \<Rightarrow> string \<Rightarrow> (string \<times> scope) outcome" where
  "embedded_processCodeExpressions data content = codePieces data (pieces codeRegex content)"

definition embedded_handleRequestExpression :: "echoContext \<Rightarrow> string \<Rightarrow> string" where
  "embedded_handleRequestExpression c expression =
     (if expression = ''request.method'' then Method c
      else if expression = ''request.url'' then URL c
      else if expression = ''request.host'' then Host c
      else expression)"

definition embedded_evaluate :: "scope \<Rightarrow> echoContext \<Rightarrow> string \<Rightarrow> string" where
  "embedded_evaluate data c expression =
     (case data expression of
        Some v \<Rightarrow> Sprintf_v c v
      | None \<Rightarrow>
          if HasPrefix expression ''request.'' then embedded_handleRequestExpression c expression
          else if HasPrefix expression ''query.'' then QueryParam c (TrimPrefix expression ''query.'')
          else if HasPrefix expression ''form.'' then FormValue c (TrimPrefix expression ''form.'')
          else expression)"

definition embedded_outputCallback :: "scope \<Rightarrow> echoContext \<Rightarrow> string \<Rightarrow> string" where
  "embedded_outputCallback data c match =
     (case FindStringSubmatch outputRegex match of
        [m0, m1] \<Rightarrow> embedded_evaluate data c (TrimSpace m1)
      | _ \<Rightarrow> match)"

definition embedded_processOutputTags :: "scope \<Rightarrow> echoContext \<Rightarrow> string \<Rightarrow> string" where
  "embedded_processOutputTags data c content =
     replaceAll (embedded_outputCallback data c) (pieces outputRegex content)"

definition embedded_TemplateProcessor_processTemplate ::
  "nat \<Rightarrow> templates \<Rightarrow> echoContext \<Rightarrow> scope \<Rightarrow> string \<Rightarrow> (string \<times> string option \<times> scope) outcome option" where
  "embedded_TemplateProcessor_processTemplate k embeddedTemplates c data content =
     (case embedded_processIncludes k embeddedTemplates content of
        None \<Rightarrow> None
      | Some content1 \<Rightarrow>
          (case embedded_processCodeExpressions data content1 of
             Panic e \<Rightarrow> Some (Panic e)
           | Return (content2, data') \<Rightarrow>
               Some (Return (embedded_processOutputTags data' c content2, None, data'))))"

definition embedded_requestData :: scope where
  "embedded_requestData = [''request'' \<mapsto> VRequest, ''query'' \<mapsto> VQuery, ''form'' \<mapsto> VForm]"

definition embedded_processTemplate ::
  "nat \<Rightarrow> templates \<Rightarrow> echoContext \<Rightarrow> string \<Rightarrow> response outcome option" where
  "embedded_processTemplate k embeddedTemplates c filename =
     (case embeddedTemplates filename of
        None \<Rightarrow> Some (Return (String 404 (''Template not found: '' @ filename)))
      | Some content \<Rightarrow>
          (case embedded_TemplateProcessor_processTemplate k embeddedTemplates c
                  embedded_requestData content of
             None \<Rightarrow> None
           | Some (Panic e) \<Rightarrow> Some (Panic e)
           | Some (Return (processedContent, Some err, data')) \<Rightarrow>
               Some (Return (String 500 (''Template processing error: '' @ err)))
           | Some (Return (processedContent, None, data')) \<Rightarrow>
               Some (Return (HTML 200 processedContent))))"

definition embedded_createHandler ::
  "string \<Rightarrow> nat \<Rightarrow> templates \<Rightarrow> echoContext \<Rightarrow> response outcome option" where
  "embedded_createHandler filename k embeddedTemplates c =
     embedded_processTemplate k embeddedTemplates c filename"

definition embedded_fileBasedHandler ::
  "nat \<Rightarrow> templates \<Rightarrow> echoContext \<Rightarrow> response outcome option" where
  "embedded_fileBasedHandler k embeddedTemplates c =
     (let path = (if URLPath c = ''/'' then ''/index'' else URLPath c);
          filename = TrimPrefix path ''/'' @ ''.html''
      in embedded_processTemplate k embeddedTemplates c filename)"

definition embedded_setupRoutes :: "(string \<Rightarrow> string) \<Rightarrow> Route list \<Rightarrow> registration list" where
  "embedded_setupRoutes upper routes =
     concat (map (\<lambda>route. concat (map (\<lambda>method.
        let m = upper method in
        if m = ''GET'' then [GET (Path route) (CreateHandler (File route))]
        else if m = ''POST'' then [POST (Path route) (CreateHandler (File route))]
        else if m = ''PUT'' then [PUT (Path route) (CreateHandler (File route))]
        else if m = ''DELETE'' then [DELETE (Path route) (CreateHandler (File route))]
        else if m = ''ANY'' then [Any (Path route) (CreateHandler (File route))]
        else []) (Methods route))) routes)
     @ [Any ''/*'' FileBasedHandler]"

fun embedded_serve ::
  "nat \<Rightarrow> templates \<Rightarrow> echoContext \<Rightarrow> handler \<Rightarrow> response outcome option" where
  "embedded_serve k embeddedTemplates c (CreateHandler filename) =
     embedded_createHandler filename k embeddedTemplates c"
| "embedded_serve k embeddedTemplates c FileBasedHandler =
     embedded_fileBasedHandler k embeddedTemplates c"

section \<open>The claims' own vocabulary\<close>

text \<open>A request and a root directory that the concrete instances below are evaluated on.\<close>

definition demoContext :: echoContext where
  "demoContext =
     \<lparr>Method = ''GET'', URL = ''/greet?a=1'', URLPath = ''/greet'', Host = ''localhost:8080'',
      RemoteAddr = ''127.0.0.1:4000'',
      QueryParam = (\<lambda>n. if n = ''a'' then ''1'' else []),
      FormValue = (\<lambda>n. if n = ''f'' then ''2'' else []),
      showRequest = ''&{GET /greet?a=1}'', showParams = ''[]'',
      showQuery = ''map[a:[1]]'', showForm = ''map[]''\<rparr>"

text \<open>
  The arithmetic rule in the specification's words: split on the first \<open>+\<close>, trim both
  operands, add them when both are integers, concatenate them otherwise.
\<close>

definition spec_arithmetic_rule :: "string \<Rightarrow> string" where
  "spec_arithmetic_rule e =
     (case SplitN2 e CHR ''+'' of
        [p0, p1] \<Rightarrow>
          (let left = TrimSpace p0; right = TrimSpace p1 in
           case (Atoi left, Atoi right) of
             (Some a, Some b) \<Rightarrow> Itoa (a + b)
           | _ \<Rightarrow> left @ right)
      | _ \<Rightarrow> e)"


text \<open>A root directory with two files, one including the other.\<close>

definition demoFiles :: files where
  "demoFiles =
     \<lparr>notExist = (\<lambda>f. f \<noteq> ''index.html'' \<and> f \<noteq> ''header.html''),
      readFile = (\<lambda>f.
        if f = ''index.html''
        then Inr ''<%@include file=\"header.html\" %><% who = \"World\" %><p>Hello <%= who %></p>''
        else if f = ''header.html'' then Inr ''<h1>Site</h1>''
        else Inl (''open root_http/'' @ f @ '': no such file or directory''))\<rparr>"

text \<open>
  The files that the include tags of a text name, in the order \<open>processIncludes\<close> meets
  them, and the relation "the content of \<open>f\<close> has an include tag naming \<open>g\<close>".
\<close>

definition includeTargets :: "string \<Rightarrow> string list" where
  "includeTargets content =
     concat (map (\<lambda>p. case p of
                    Plain c \<Rightarrow> []
                  | Matched match \<Rightarrow>
                      (case FindStringSubmatch includeRegex match of
                         [m0, includeFile] \<Rightarrow> [includeFile]
                       | _ \<Rightarrow> []))
                 (pieces includeRegex content))"


text \<open>The span of the scanned text that a piece stands for.\<close>

fun pieceText :: "piece \<Rightarrow> string" where
  "pieceText (Plain c) = [c]"
| "pieceText (Matched match) = match"

text \<open>The ASCII part of \<open>strings.ToUpper\<close>, for the concrete instances.\<close>

definition asciiToUpper :: "string \<Rightarrow> string" where
  "asciiToUpper s =
     map (\<lambda>c. if (97::nat) \<le> of_char c \<and> (of_char c :: nat) \<le> 122
              then char_of (of_char c - (32::nat)) else c) s"

text \<open>The table that \<open>compile\<close> makes of \<open>demoFiles\<close>.\<close>

definition demoTemplates :: templates where
  "demoTemplates =
     [''index.html'' \<mapsto>
        ''<%@include file=\"header.html\" %><% who = \"World\" %><p>Hello <%= who %></p>'',
      ''header.html'' \<mapsto> ''<h1>Site</h1>'']"

text \<open>
  The trimmed expressions of the output tags of a text, in order, and the expressions
  that the generated program resolves differently from the server: \<open>params\<close>, which only the
  server binds before the expansion, and, when the scope does not bind them,
  \<open>request.remoteaddr\<close> and the expressions that reach the arithmetic rule.
\<close>

definition outputExpressions :: "string \<Rightarrow> string list" where
  "outputExpressions content =
     concat (map (\<lambda>p. case p of
                    Plain c \<Rightarrow> []
                  | Matched match \<Rightarrow>
                      (case FindStringSubmatch outputRegex match of
                         [m0, m1] \<Rightarrow> [TrimSpace m1]
                       | _ \<Rightarrow> []))
                 (pieces outputRegex content))"

definition simplifiedAway :: "scope \<Rightarrow> string \<Rightarrow> bool" where
  "simplifiedAway data e \<longleftrightarrow>
     e = ''params'' \<or>
     (data e = None \<and>
      (e = ''request.remoteaddr'' \<or>
       (\<not> HasPrefix e ''request.'' \<and> \<not> HasPrefix e ''query.'' \<and> \<not> HasPrefix e ''form.'' \<and>
        Contains e CHR ''+'')))"

text \<open>What the caller of \<open>TemplateProcessor.processTemplate\<close> gets: the content and the error.\<close>

definition returned ::
  "(string \<times> string option \<times> scope) outcome option \<Rightarrow> (string \<times> string option) outcome option" where
  "returned r = map_option (map_outcome (\<lambda>(content, err, data). (content, err))) r"

text \<open>
  The assignment \<open><% name = "value" %>\<close> and the output tag \<open><%= name %>\<close> as they are written in
  a document. A name is well formed when it is not empty, has no white space around it
  and holds neither \<open>=\<close> nor \<open>%\<close>.
\<close>

definition assignTag :: "string \<Rightarrow> string \<Rightarrow> string" where
  "assignTag name value = ''<% '' @ name @ '' = \"'' @ value @ ''\" %>''"

definition outputTag :: "string \<Rightarrow> string" where
  "outputTag name = ''<%= '' @ name @ '' %>''"

definition wellFormedName :: "string \<Rightarrow> bool" where
  "wellFormedName name \<longleftrightarrow>
     name \<noteq> [] \<and> TrimSpace name = name \<and> CHR ''='' \<notin> set name \<and> CHR ''%'' \<notin> set name"

text \<open>The name that a piece of the code pass assigns, if it is an assignment.\<close>

definition pieceNames :: "piece \<Rightarrow> string list" where
  "pieceNames p =
     (case p of
        Plain c \<Rightarrow> []
      | Matched match \<Rightarrow>
          (case FindStringSubmatch codeRegex match of
             [m0, m1] \<Rightarrow>
               if Contains (TrimSpace m1) CHR ''=''
               then [TrimSpace (takeWhile (\<lambda>x. x \<noteq> CHR ''='') (TrimSpace m1))]
               else []
           | _ \<Rightarrow> []))"

text \<open>The names that the code blocks of a text assign, in order.\<close>

definition assignedNames :: "string \<Rightarrow> string list" where
  "assignedNames content = concat (map pieceNames (pieces codeRegex content))"

text \<open>A text in which no \<open><\<close> is followed by \<open>%\<close>: no tag can start in it.\<close>

fun noTagOpen :: "string \<Rightarrow> bool" where
  "noTagOpen (x # y # s) = (\<not> (x = CHR ''<'' \<and> y = CHR ''%'') \<and> noTagOpen (y # s))"
| "noTagOpen s = True"

section \<open>Properties of the library functions\<close>

lemma Split_no_sep: "c \<notin> set s \<Longrightarrow> Split s c = [s]"
  by (induction s) auto

lemma Split_append: "c \<notin> set l \<Longrightarrow> Split (l @ c # r) c = l # Split r c"
  by (induction l) auto

lemma Split_not_Nil: "Split s c \<noteq> []"
  by (induction s) (auto split: list.splits)

lemma length_Split: "length (Split s c) = Suc (count_list s c)"
  by (induction s) (auto split: list.splits simp: Split_not_Nil)

lemma split_at_first:
  "c \<in> set s \<Longrightarrow> s = takeWhile (\<lambda>x. x \<noteq> c) s @ c # tl (dropWhile (\<lambda>x. x \<noteq> c) s)"
  by (induction s) auto

lemma leadingSpace_take: "leadingSpace rs s \<noteq> 0 \<Longrightarrow> take (leadingSpace rs s) s \<in> set rs"
  by (induction rs) (auto split: if_splits)

lemma trimLeftRunes_count:
  assumes "\<forall>r\<in>set rs. c \<notin> set r"
  shows "count_list (trimLeftRunes rs s) c = count_list s c"
  using assms
proof (induction rs s rule: trimLeftRunes.induct)
  case (1 rs s)
  define k where "k = leadingSpace rs s"
  show ?case
  proof (cases "k = 0")
    case True
    then show ?thesis by (subst trimLeftRunes.simps) (simp add: k_def)
  next
    case False
    have "take k s \<in> set rs" using False leadingSpace_take[of rs s] by (simp add: k_def)
    with "1.prems" have "c \<notin> set (take k s)" by auto
    then have z: "count_list (take k s) c = 0" by simp
    have "count_list s c = count_list (take k s @ drop k s) c" by simp
    also have "\<dots> = count_list (drop k s) c" using z by (simp del: append_take_drop_id)
    finally have e: "count_list s c = count_list (drop k s) c" .
    have "trimLeftRunes rs s = trimLeftRunes rs (drop k s)"
      using False by (subst trimLeftRunes.simps) (simp add: k_def)
    with "1.IH"[OF k_def False "1.prems"] e show ?thesis by simp
  qed
qed

lemma TrimSpace_count:
  assumes "\<forall>r\<in>set spaceRunes. c \<notin> set r"
  shows "count_list (TrimSpace s) c = count_list s c"
proof -
  have "\<forall>r\<in>set (map rev spaceRunes). c \<notin> set r" using assms by simp
  then show ?thesis
    unfolding TrimSpace_def by (simp add: trimLeftRunes_count assms)
qed

lemma plus_no_space: "\<forall>r\<in>set spaceRunes. CHR ''+'' \<notin> set r"
  by (simp add: spaceRunes_def)

lemma Atoi_two_plus: "2 \<le> count_list s CHR ''+'' \<Longrightarrow> Atoi s = None"
proof -
  assume a: "2 \<le> count_list s CHR ''+''"
  then obtain x xs where s: "s = x # xs" by (cases s) auto
  with a have "1 \<le> count_list xs CHR ''+''" by (auto split: if_splits)
  then have m: "CHR ''+'' \<in> set xs" by (metis count_list_0_iff not_one_le_zero)
  have nd: "\<not> isDigit CHR ''+''" by (simp add: isDigit_def)
  from m nd have "\<not> list_all isDigit xs" by (auto simp: list_all_iff)
  moreover from m nd have "\<not> list_all isDigit (x # xs)" by (auto simp: list_all_iff)
  ultimately show ?thesis by (simp add: Atoi_def s Let_def)
qed

lemma addInt_exact: "- (2 ^ 63) \<le> a + b \<Longrightarrow> a + b < 2 ^ 63 \<Longrightarrow> addInt a b = a + b"
  by (simp add: addInt_def)

lemma evaluateSimpleExpression_rule:
  "evaluateSimpleExpression e =
     (if count_list e CHR ''+'' = 1 then
        (let left = TrimSpace (takeWhile (\<lambda>x. x \<noteq> CHR ''+'') e);
             right = TrimSpace (tl (dropWhile (\<lambda>x. x \<noteq> CHR ''+'') e))
         in case (Atoi left, Atoi right) of
              (Some a, Some b) \<Rightarrow> Itoa (addInt a b)
            | _ \<Rightarrow> left @ right)
      else if count_list e CHR ''+'' = 0 then
        (case Atoi (TrimSpace e) of Some v \<Rightarrow> Itoa v | None \<Rightarrow> e)
      else e)"
proof -
  let ?c = "CHR ''+''"
  let ?l = "takeWhile (\<lambda>x. x \<noteq> ?c) e" and ?r = "tl (dropWhile (\<lambda>x. x \<noteq> ?c) e)"
  consider (one) "count_list e ?c = 1" | (zero) "count_list e ?c = 0" | (more) "2 \<le> count_list e ?c"
    by linarith
  then show ?thesis
  proof cases
    case one
    then have "?c \<in> set e" by (metis count_list_0_iff zero_neq_one)
    then have e: "e = ?l @ ?c # ?r" by (rule split_at_first)
    have nl: "?c \<notin> set ?l" by (metis (mono_tags, lifting) set_takeWhileD)
    have "count_list e ?c = count_list ?l ?c + Suc (count_list ?r ?c)"
      by (subst e) simp
    with one nl have "count_list ?r ?c = 0" by simp
    then have nr: "?c \<notin> set ?r" by (simp add: count_list_0_iff)
    have "Split e ?c = ?l # Split ?r ?c" by (subst e) (rule Split_append[OF nl])
    also have "\<dots> = [?l, ?r]" using Split_no_sep[OF nr] by simp
    finally show ?thesis using one
      by (simp add: evaluateSimpleExpression_def Let_def split: option.splits)
  next
    case zero
    then have "?c \<notin> set e" by (simp add: count_list_0_iff)
    then have "Split e ?c = [e]" by (rule Split_no_sep)
    then show ?thesis using zero by (simp add: evaluateSimpleExpression_def)
  next
    case more
    then have "3 \<le> length (Split e ?c)" by (simp add: length_Split)
    then obtain a b d ds where "Split e ?c = a # b # d # ds"
      by (cases "Split e ?c" rule: list.exhaust; simp; metis Suc_le_length_iff One_nat_def Suc_1 length_Cons list.size(3) not_less_eq_eq numeral_3_eq_3)
    moreover have "Atoi (TrimSpace e) = None"
      using more by (intro Atoi_two_plus) (simp add: TrimSpace_count plus_no_space)
    ultimately show ?thesis using more by (simp add: evaluateSimpleExpression_def)
  qed
qed

section \<open>The output expression evaluator\<close>

text \<open>
  Claim C1 as stated fails on an expression with two \<open>+\<close> signs: splitting \<open>a + b + c\<close> on
  the first \<open>+\<close> would give \<open>ab + c\<close>, but the evaluator splits on every \<open>+\<close>, finds three
  parts instead of two, and returns the expression as it stands.
\<close>

theorem arithmetic_first_plus_counterexample:
  "evaluate Map.empty demoContext ''a + b + c'' = ''a + b + c'' \<and>
   spec_arithmetic_rule ''a + b + c'' = ''ab + c''"
  by code_simp

text \<open>
  Claim C1, amended. An output expression that holds a \<open>+\<close> and is resolved neither by the
  scope nor by the \<open>request.\<close>, \<open>query.\<close> and \<open>form.\<close> namespaces is evaluated as follows.
  With exactly one \<open>+\<close> it is split there into two trimmed operands; when \<open>Atoi\<close> accepts
  both, the result is the decimal text of their sum (the exact sum when it fits a 64-bit
  int, the wrapped-around sum otherwise), and else the two trimmed operands concatenated
  with the \<open>+\<close> dropped. With more than one \<open>+\<close> the expression is returned unchanged.
\<close>

theorem evaluate_arithmetic_rule:
  assumes "data e = None" and "\<not> HasPrefix e ''request.''" and "\<not> HasPrefix e ''query.''"
    and "\<not> HasPrefix e ''form.''" and "Contains e CHR ''+''"
  shows "evaluate data c e =
     (if count_list e CHR ''+'' = 1 then
        (let left = TrimSpace (takeWhile (\<lambda>x. x \<noteq> CHR ''+'') e);
             right = TrimSpace (tl (dropWhile (\<lambda>x. x \<noteq> CHR ''+'') e))
         in case (Atoi left, Atoi right) of
              (Some a, Some b) \<Rightarrow>
                Itoa (if - (2 ^ 63) \<le> a + b \<and> a + b < 2 ^ 63 then a + b else addInt a b)
            | _ \<Rightarrow> left @ right)
      else e)"
proof -
  have "count_list e CHR ''+'' \<noteq> 0"
    using assms(5) by (simp add: Contains_def count_list_0_iff)
  moreover have "evaluate data c e = evaluateSimpleExpression e"
    using assms by (simp add: evaluate_def)
  ultimately show ?thesis
    by (simp add: evaluateSimpleExpression_rule Let_def addInt_exact
          split: option.splits)
qed

theorem evaluate_arithmetic_rule_witness:
  "evaluate Map.empty demoContext ''2 + 3'' = ''5'' \<and>
   evaluate Map.empty demoContext ''ab + cd'' = ''abcd''"
proof -
  have n: "Map.empty ''2 + 3'' = (None :: val option)" "Map.empty ''ab + cd'' = (None :: val option)"
    by simp_all
  have p: "\<not> HasPrefix ''2 + 3'' ''request.''" "\<not> HasPrefix ''2 + 3'' ''query.''"
    "\<not> HasPrefix ''2 + 3'' ''form.''" "Contains ''2 + 3'' CHR ''+''"
    by (simp_all add: HasPrefix_def Contains_def)
  have q: "\<not> HasPrefix ''ab + cd'' ''request.''" "\<not> HasPrefix ''ab + cd'' ''query.''"
    "\<not> HasPrefix ''ab + cd'' ''form.''" "Contains ''ab + cd'' CHR ''+''"
    by (simp_all add: HasPrefix_def Contains_def)
  note a = evaluate_arithmetic_rule[OF n(1) p, of demoContext]
  note b = evaluate_arithmetic_rule[OF n(2) q, of demoContext]
  show ?thesis unfolding a b by code_simp
qed

lemma HasPrefix_split: "HasPrefix s p \<Longrightarrow> s = p @ drop (length p) s"
  unfolding HasPrefix_def by (metis append_take_drop_id)

text \<open>
  Claim C8. The evaluator resolves an output expression in a fixed order, the first rule
  that applies deciding alone: a name bound in the scope is rendered with its value;
  otherwise the prefix \<open>request.\<close> selects among \<open>method\<close>, \<open>url\<close>, \<open>host\<close> and \<open>remoteaddr\<close>,
  any other suffix giving the expression back; otherwise the prefixes \<open>query.\<close> and
  \<open>form.\<close> look the named parameter up; otherwise an expression with a \<open>+\<close> goes to the
  arithmetic rule; otherwise the expression is returned unchanged.
\<close>

theorem evaluate_resolution_order:
  "(data e = Some v \<longrightarrow> evaluate data c e = Sprintf_v c v) \<and>
   (data e = None \<and> HasPrefix e ''request.'' \<longrightarrow>
      evaluate data c e =
        (let suffix = drop 8 e in
         if suffix = ''method'' then Method c
         else if suffix = ''url'' then URL c
         else if suffix = ''host'' then Host c
         else if suffix = ''remoteaddr'' then RemoteAddr c
         else e)) \<and>
   (data e = None \<and> \<not> HasPrefix e ''request.'' \<and> HasPrefix e ''query.'' \<longrightarrow>
      evaluate data c e = QueryParam c (drop 6 e)) \<and>
   (data e = None \<and> \<not> HasPrefix e ''request.'' \<and> \<not> HasPrefix e ''query.'' \<and>
    HasPrefix e ''form.'' \<longrightarrow>
      evaluate data c e = FormValue c (drop 5 e)) \<and>
   (data e = None \<and> \<not> HasPrefix e ''request.'' \<and> \<not> HasPrefix e ''query.'' \<and>
    \<not> HasPrefix e ''form.'' \<and> Contains e CHR ''+'' \<longrightarrow>
      evaluate data c e = evaluateSimpleExpression e) \<and>
   (data e = None \<and> \<not> HasPrefix e ''request.'' \<and> \<not> HasPrefix e ''query.'' \<and>
    \<not> HasPrefix e ''form.'' \<and> \<not> Contains e CHR ''+'' \<longrightarrow>
      evaluate data c e = e)"
proof -
  have req: "handleRequestExpression c e =
        (let suffix = drop 8 e in
         if suffix = ''method'' then Method c
         else if suffix = ''url'' then URL c
         else if suffix = ''host'' then Host c
         else if suffix = ''remoteaddr'' then RemoteAddr c
         else e)" if h: "HasPrefix e ''request.''"
  proof -
    define t where "t = drop 8 e"
    have len: "length ''request.'' = 8" by simp
    have e: "e = ''request.'' @ t"
      unfolding t_def using HasPrefix_split[OF h] len by metis
    show ?thesis
      unfolding t_def[symmetric] by (simp add: handleRequestExpression_def e)
  qed
  show ?thesis
    by (simp add: evaluate_def req TrimPrefix_def eval_nat_numeral)
qed

theorem evaluate_resolution_order_witness:
  "evaluate [''who'' \<mapsto> VString ''World''] demoContext ''who'' = ''World'' \<and>
   evaluate Map.empty demoContext ''request.method'' = ''GET'' \<and>
   evaluate Map.empty demoContext ''request.other'' = ''request.other'' \<and>
   evaluate Map.empty demoContext ''query.a'' = ''1'' \<and>
   evaluate Map.empty demoContext ''form.f'' = ''2'' \<and>
   evaluate Map.empty demoContext ''2 + 3'' = evaluateSimpleExpression ''2 + 3'' \<and>
   evaluate Map.empty demoContext ''totallyUnknown'' = ''totallyUnknown''"
  using evaluate_resolution_order[of "[''who'' \<mapsto> VString ''World'']" "''who''" "VString ''World''" demoContext]
    evaluate_resolution_order[of Map.empty "''request.method''" VRequest demoContext]
    evaluate_resolution_order[of Map.empty "''request.other''" VRequest demoContext]
    evaluate_resolution_order[of Map.empty "''query.a''" VRequest demoContext]
    evaluate_resolution_order[of Map.empty "''form.f''" VRequest demoContext]
    evaluate_resolution_order[of Map.empty "''2 + 3''" VRequest demoContext]
    evaluate_resolution_order[of Map.empty "''totallyUnknown''" VRequest demoContext]
  by (simp add: HasPrefix_def Contains_def demoContext_def)

section \<open>What a match of each pattern looks like\<close>

lemma run_Lit_split:
  "s' \<in> set (run (Lit l # as) s) \<Longrightarrow> \<exists>t. s = l @ t \<and> s' \<in> set (run as t)"
  by (auto split: if_splits) (metis append_take_drop_id)

lemma run_One_split:
  "s' \<in> set (run (One c # as) s) \<Longrightarrow> \<exists>x t. s = x # t \<and> inClass c x \<and> s' \<in> set (run as t)"
  by (cases s) (auto split: if_splits)

lemma run_Star_split:
  "s' \<in> set (run (Star c # as) s) \<Longrightarrow>
     \<exists>w t. s = w @ t \<and> (\<forall>x\<in>set w. inClass c x) \<and> s' \<in> set (run as t)"
proof (induction s)
  case Nil
  then show ?case by auto
next
  case (Cons x xs)
  show ?case
  proof (cases "inClass c x \<and> s' \<in> set (run (Star c # as) xs)")
    case True
    with Cons.IH obtain w t where "xs = w @ t" "\<forall>x\<in>set w. inClass c x" "s' \<in> set (run as t)"
      by blast
    with True have "x # xs = (x # w) @ t \<and> (\<forall>y\<in>set (x # w). inClass c y) \<and> s' \<in> set (run as t)"
      by simp
    then show ?thesis by blast
  next
    case False
    with Cons.prems have "s' \<in> set (run as (x # xs))" by (auto split: if_splits)
    then have "x # xs = [] @ (x # xs) \<and> (\<forall>y\<in>set []. inClass c y) \<and> s' \<in> set (run as (x # xs))"
      by simp
    then show ?thesis by blast
  qed
qed

lemma run_Plus_split:
  assumes "s' \<in> set (run (Plus c # as) s)"
  shows "\<exists>w t. s = w @ t \<and> w \<noteq> [] \<and> (\<forall>x\<in>set w. inClass c x) \<and> s' \<in> set (run as t)"
proof -
  from assms obtain x xs where s: "s = x # xs" and x: "inClass c x"
    and m: "s' \<in> set (run (Star c # as) xs)"
    by (cases s) (auto split: if_splits)
  from run_Star_split[OF m] obtain w t where "xs = w @ t" "\<forall>x\<in>set w. inClass c x" "s' \<in> set (run as t)"
    by blast
  with s x have "s = (x # w) @ t \<and> x # w \<noteq> [] \<and> (\<forall>y\<in>set (x # w). inClass c y) \<and> s' \<in> set (run as t)"
    by simp
  then show ?thesis by blast
qed

lemma matchHere_Some:
  assumes "matchHere r s = Some (n, g)"
  shows "\<exists>s1 s2 s3. s1 \<in> set (run (pre r) s) \<and> s2 \<in> set (run (grp r) s1) \<and>
           s3 \<in> set (run (post r) s2) \<and> n = length s - length s3 \<and>
           g = take (length s1 - length s2) s1"
proof -
  let ?L = "[(s1, s2, s3). s1 \<leftarrow> run (pre r) s, s2 \<leftarrow> run (grp r) s1, s3 \<leftarrow> run (post r) s2]"
  from assms obtain s1 s2 s3 rest where L: "?L = (s1, s2, s3) # rest"
    and n: "n = length s - length s3" and g: "g = take (length s1 - length s2) s1"
    by (auto simp: matchHere_def split: list.splits)
  have "(s1, s2, s3) \<in> set ?L" by (simp only: L list.set_intros)
  then have "s1 \<in> set (run (pre r) s) \<and> s2 \<in> set (run (grp r) s1) \<and> s3 \<in> set (run (post r) s2)"
    by auto
  with n g show ?thesis by blast
qed

lemma codeRegex_shape:
  assumes "matchHere codeRegex s = Some (n, g)"
  shows "\<exists>w x b w' rest. s = ''<%'' @ w @ x # b @ w' @ ''%>'' @ rest \<and>
           n = length w + length b + length w' + 5 \<and> g = x # b \<and>
           (\<forall>c\<in>set w. inClass Space c) \<and> x \<noteq> CHR ''='' \<and> CHR ''%'' \<notin> set b \<and>
           (\<forall>c\<in>set w'. inClass Space c)"
proof -
  from matchHere_Some[OF assms] obtain s1 s2 s3
    where 1: "s1 \<in> set (run [Lit ''<%'', Star Space] s)"
      and 2: "s2 \<in> set (run [One (Except CHR ''=''), Star (Except CHR ''%'')] s1)"
      and 3: "s3 \<in> set (run [Star Space, Lit ''%>''] s2)"
      and n: "n = length s - length s3" and g: "g = take (length s1 - length s2) s1"
    by (auto simp: codeRegex_def)
  from run_Lit_split[OF 1] obtain t where t: "s = ''<%'' @ t" "s1 \<in> set (run [Star Space] t)"
    by blast
  from run_Star_split[OF t(2)] obtain w where w: "t = w @ s1" "\<forall>x\<in>set w. inClass Space x"
    by auto
  from run_One_split[OF 2] obtain x t2 where x: "s1 = x # t2" "inClass (Except CHR ''='') x"
    "s2 \<in> set (run [Star (Except CHR ''%'')] t2)" by blast
  from run_Star_split[OF x(3)] obtain b where b: "t2 = b @ s2" "\<forall>x\<in>set b. inClass (Except CHR ''%'') x"
    by auto
  from run_Star_split[OF 3] obtain w' t3 where w': "s2 = w' @ t3" "\<forall>x\<in>set w'. inClass Space x"
    "s3 \<in> set (run [Lit ''%>''] t3)" by blast
  from run_Lit_split[OF w'(3)] have t3: "t3 = ''%>'' @ s3" by auto
  have "s = ''<%'' @ w @ x # b @ w' @ ''%>'' @ s3"
    using t(1) w(1) x(1) b(1) w'(1) t3 by simp
  moreover from this n have "n = length w + length b + length w' + 5" by simp
  moreover have "g = x # b" using g x(1) b(1) by simp
  moreover have "x \<noteq> CHR ''=''" using x(2) by simp
  moreover have "CHR ''%'' \<notin> set b" using b(2) by auto
  ultimately show ?thesis using w(2) w'(2) by blast
qed

lemma outputRegex_shape:
  assumes "matchHere outputRegex s = Some (n, g)"
  shows "\<exists>w w' rest. s = ''<%='' @ w @ g @ w' @ ''%>'' @ rest \<and>
           n = length w + length g + length w' + 5 \<and> g \<noteq> [] \<and>
           (\<forall>c\<in>set w. inClass Space c) \<and> CHR ''%'' \<notin> set g \<and>
           (\<forall>c\<in>set w'. inClass Space c)"
proof -
  from matchHere_Some[OF assms] obtain s1 s2 s3
    where 1: "s1 \<in> set (run [Lit ''<%='', Star Space] s)"
      and 2: "s2 \<in> set (run [Plus (Except CHR ''%'')] s1)"
      and 3: "s3 \<in> set (run [Star Space, Lit ''%>''] s2)"
      and n: "n = length s - length s3" and g: "g = take (length s1 - length s2) s1"
    by (auto simp: outputRegex_def)
  from run_Lit_split[OF 1] obtain t where t: "s = ''<%='' @ t" "s1 \<in> set (run [Star Space] t)"
    by blast
  from run_Star_split[OF t(2)] obtain w where w: "t = w @ s1" "\<forall>x\<in>set w. inClass Space x"
    by auto
  from run_Plus_split[OF 2] obtain b where b: "s1 = b @ s2" "b \<noteq> []"
    "\<forall>x\<in>set b. inClass (Except CHR ''%'') x"
    by auto
  from run_Star_split[OF 3] obtain w' t3 where w': "s2 = w' @ t3" "\<forall>x\<in>set w'. inClass Space x"
    "s3 \<in> set (run [Lit ''%>''] t3)" by blast
  from run_Lit_split[OF w'(3)] have t3: "t3 = ''%>'' @ s3" by auto
  have gb: "g = b" using g b(1) by simp
  have "s = ''<%='' @ w @ g @ w' @ ''%>'' @ s3"
    using t(1) w(1) b(1) w'(1) t3 gb by simp
  moreover from this n have "n = length w + length g + length w' + 5" by simp
  moreover have "CHR ''%'' \<notin> set g" using b(3) gb by auto
  ultimately show ?thesis using w(2) w'(2) b(2) gb by blast
qed

lemma includeRegex_shape:
  assumes "matchHere includeRegex s = Some (n, g)"
  shows "\<exists>w w' rest. s = ''<%@include'' @ w @ ''file=\"'' @ g @ ''\"'' @ w' @ ''%>'' @ rest \<and>
           n = length w + length g + length w' + 19 \<and> g \<noteq> [] \<and> w \<noteq> [] \<and>
           (\<forall>c\<in>set w. inClass Space c) \<and> CHR 0x22 \<notin> set g \<and>
           (\<forall>c\<in>set w'. inClass Space c)"
proof -
  from matchHere_Some[OF assms] obtain s1 s2 s3
    where 1: "s1 \<in> set (run [Lit ''<%@include'', Plus Space, Lit ''file=\"''] s)"
      and 2: "s2 \<in> set (run [Plus (Except (CHR 0x22))] s1)"
      and 3: "s3 \<in> set (run [Lit ''\"'', Star Space, Lit ''%>''] s2)"
      and n: "n = length s - length s3" and g: "g = take (length s1 - length s2) s1"
    by (auto simp: includeRegex_def)
  from run_Lit_split[OF 1] obtain t where t: "s = ''<%@include'' @ t"
    "s1 \<in> set (run [Plus Space, Lit ''file=\"''] t)"
    by blast
  from run_Plus_split[OF t(2)] obtain w t1 where w: "t = w @ t1" "w \<noteq> []" "\<forall>x\<in>set w. inClass Space x"
    "s1 \<in> set (run [Lit ''file=\"''] t1)"
    by blast
  from run_Lit_split[OF w(4)] have t1: "t1 = ''file=\"'' @ s1" by auto
  from run_Plus_split[OF 2] obtain b where b: "s1 = b @ s2" "b \<noteq> []"
    "\<forall>x\<in>set b. inClass (Except (CHR 0x22)) x"
    by auto
  from run_Lit_split[OF 3] obtain t2 where t2: "s2 = ''\"'' @ t2" "s3 \<in> set (run [Star Space, Lit ''%>''] t2)"
    by blast
  from run_Star_split[OF t2(2)] obtain w' t3 where w': "t2 = w' @ t3" "\<forall>x\<in>set w'. inClass Space x"
    "s3 \<in> set (run [Lit ''%>''] t3)" by blast
  from run_Lit_split[OF w'(3)] have t3: "t3 = ''%>'' @ s3" by auto
  have gb: "g = b" using g b(1) by simp
  have "s = ''<%@include'' @ w @ ''file=\"'' @ g @ ''\"'' @ w' @ ''%>'' @ s3"
    using t(1) w(1) t1 b(1) t2(1) w'(1) t3 gb by simp
  moreover from this n have "n = length w + length g + length w' + 19" by simp
  moreover have "CHR 0x22 \<notin> set g" using b(3) gb by auto
  ultimately show ?thesis using w(2,3) w'(2) b(2) gb by blast
qed

section \<open>Include expansion\<close>


lemma replaceAllOpt_append:
  "replaceAllOpt f (ps1 @ ps2) =
     (case replaceAllOpt f ps1 of
        None \<Rightarrow> None
      | Some a \<Rightarrow> (case replaceAllOpt f ps2 of None \<Rightarrow> None | Some b \<Rightarrow> Some (a @ b)))"
  by (induction f ps1 rule: replaceAllOpt.induct) (auto split: option.splits)















lemma matchHere_le: "matchHere r s = Some (n, g) \<Longrightarrow> n \<le> length s"
  by (auto simp: matchHere_def split: list.splits)

lemma pieces_text: "concat (map pieceText (pieces r s)) = s"
proof (induction r s rule: pieces.induct)
  case (1 r)
  show ?case by (simp add: pieces.simps)
next
  case (2 r x xs)
  show ?case
  proof (cases "matchHere r (x # xs)")
    case None
    with 2 show ?thesis by (simp add: pieces.simps)
  next
    case (Some a)
    obtain n g where a: "a = (n, g)" by (cases a)
    show ?thesis
    proof (cases "0 < n")
      case True
      with 2(2)[OF Some a[symmetric] True] Some a show ?thesis by (simp add: pieces.simps)
    next
      case False
      with 2(3)[OF Some a[symmetric] False] Some a show ?thesis by (simp add: pieces.simps)
    qed
  qed
qed

section \<open>The whole expansion\<close>

text \<open>
  Claim C9. \<open>TemplateProcessor.processTemplate\<close> has one return statement, and the error it
  returns there is nil: for every content, scope and request, whatever the method returns
  carries no error. So the request handler never takes the branch that answers with the
  status 500 and the text \<open>Template processing error\<close>.
\<close>

theorem template_error_always_nil:
  "(TemplateProcessor_processTemplate k fs c data content = Some (Return (out, err, data')) \<longrightarrow>
      err = None) \<and>
   processTemplate k fs c filename \<noteq>
     Some (Return (String 500 (''Template processing error: '' @ e)))"
  by (auto simp: TemplateProcessor_processTemplate_def processTemplate_def
           split: option.splits outcome.splits sum.splits prod.splits)

theorem template_error_always_nil_witness:
  "\<exists>out err data'.
     TemplateProcessor_processTemplate 1 demoFiles demoContext requestData ''<%= 2 + 3 %>'' =
       Some (Return (out, err, data')) \<and> out = ''5'' \<and> err = None"
proof -
  have i: "processIncludes 1 demoFiles ''<%= 2 + 3 %>'' = Some ''<%= 2 + 3 %>''"
    by code_simp
  have p: "pieces codeRegex ''<%= 2 + 3 %>'' = map Plain ''<%= 2 + 3 %>''"
    by code_simp
  have c: "processCodeExpressions requestData ''<%= 2 + 3 %>'' = Return (''<%= 2 + 3 %>'', requestData)"
    by (simp add: processCodeExpressions_def p)
  have o: "processOutputTags requestData demoContext ''<%= 2 + 3 %>'' = ''5''"
    by code_simp
  have h: "TemplateProcessor_processTemplate 1 demoFiles demoContext requestData ''<%= 2 + 3 %>'' =
       Some (Return (''5'', None, requestData))"
    unfolding TemplateProcessor_processTemplate_def i by (simp add: c o)
  from template_error_always_nil[of 1 demoFiles demoContext requestData "''<%= 2 + 3 %>''" "''5''" None requestData "''index.html''" "[]"] h
  show ?thesis by simp
qed

text \<open>
  Claim C4 at the input \<open><% x = " %>\<close>: the value is the single character \<open>"\<close>, which is both
  a prefix and a suffix of itself, so the code takes the slice \<open>varValue[1:0]\<close> and panics.
  The block is not replaced by the empty string and the expansion is aborted.
\<close>

theorem single_quote_value_panics:
  "(case processCodeExpressions requestData ''<% x = \" %>'' of
      Panic e \<Rightarrow> e = ''slice bounds out of range [1:0]''
    | Return r \<Rightarrow> False) \<and>
   (case TemplateProcessor_processTemplate 1 demoFiles demoContext requestData ''<% x = \" %>'' of
      Some (Panic e) \<Rightarrow> e = ''slice bounds out of range [1:0]''
    | _ \<Rightarrow> False)"
  by code_simp

section \<open>Text outside the directives\<close>

lemma replaceAllOpt_Plain: "replaceAllOpt f (map Plain s) = Some s"
  by (induction s) auto

lemma codePieces_Plain: "codePieces data (map Plain s) = Return (s, data)"
  by (induction s) auto

lemma replaceAll_Plain: "replaceAll f (map Plain s) = s"
  by (induction s) auto

lemma replaceAll_append: "replaceAll f (ps1 @ ps2) = replaceAll f ps1 @ replaceAll f ps2"
  by (induction f ps1 rule: replaceAll.induct) auto

lemma codePieces_append:
  "codePieces data (ps1 @ ps2) =
     (case codePieces data ps1 of
        Panic e \<Rightarrow> Panic e
      | Return (a, data1) \<Rightarrow>
          (case codePieces data1 ps2 of
             Panic e \<Rightarrow> Panic e
           | Return (b, data2) \<Rightarrow> Return (a @ b, data2)))"
  by (induction data ps1 rule: codePieces.induct) (auto split: outcome.splits)

lemma no_directive_identity:
  assumes "pieces includeRegex content = map Plain content"
    and "pieces codeRegex content = map Plain content"
    and "pieces outputRegex content = map Plain content"
  shows "TemplateProcessor_processTemplate (Suc k) fs c data content =
           Some (Return (content, None, data))"
  by (simp add: TemplateProcessor_processTemplate_def processCodeExpressions_def
        processOutputTags_def assms replaceAllOpt_Plain codePieces_Plain replaceAll_Plain)

text \<open>
  Claim C3 as stated fails on its own example. An include tag with a single-quoted file
  attribute does not match the include pattern, but it does match the code-block pattern
  (\<open><%\<close>, a first character other than \<open>=\<close>, no \<open>%\<close> up to \<open>%>\<close>): the tag is removed from the
  text, and since it holds a \<open>=\<close> it is executed as the assignment of \<open>'header.html'\<close> to
  the name \<open>@include file\<close>.
\<close>

theorem malformed_include_counterexample:
  "matchHere includeRegex ''<%@include file='header.html' %>'' = None \<and>
   (case TemplateProcessor_processTemplate 1 demoFiles demoContext requestData
           ''<p><%@include file='header.html' %></p>'' of
      Some (Return (out, err, data')) \<Rightarrow>
        out = ''<p></p>'' \<and> requestData ''@include file'' = None \<and>
        data' ''@include file'' = Some (VString (CHR 0x27 # ''header.html'' @ [CHR 0x27]))
    | _ \<Rightarrow> False)"
  by code_simp

text \<open>
  Claim C3, amended. In each of the three passes, a span of the scanned text that lies
  outside every match of that pass's pattern is copied unchanged, between the replacements
  of the matches before it and after it, and the scope that reaches the matches after
  it is the one the matches before it left. A document in which none of the three patterns
  matches is returned as it is, with the scope unchanged.
\<close>

theorem unmatched_text_is_copied:
  "(pieces includeRegex content = ps1 @ map Plain span @ ps2 \<longrightarrow>
      processIncludes (Suc k) fs content =
        (case replaceAllOpt (includeCallback fs (processIncludes k fs)) ps1 of
           None \<Rightarrow> None
         | Some a \<Rightarrow>
             (case replaceAllOpt (includeCallback fs (processIncludes k fs)) ps2 of
                None \<Rightarrow> None
              | Some b \<Rightarrow> Some (a @ span @ b)))) \<and>
   (pieces codeRegex content = ps1 @ map Plain span @ ps2 \<longrightarrow>
      processCodeExpressions data content =
        (case codePieces data ps1 of
           Panic e \<Rightarrow> Panic e
         | Return (a, data1) \<Rightarrow>
             (case codePieces data1 ps2 of
                Panic e \<Rightarrow> Panic e
              | Return (b, data2) \<Rightarrow> Return (a @ span @ b, data2)))) \<and>
   (pieces outputRegex content = ps1 @ map Plain span @ ps2 \<longrightarrow>
      processOutputTags data c content =
        replaceAll (outputCallback data c) ps1 @ span @ replaceAll (outputCallback data c) ps2) \<and>
   (pieces includeRegex content = map Plain content \<and>
    pieces codeRegex content = map Plain content \<and>
    pieces outputRegex content = map Plain content \<longrightarrow>
      TemplateProcessor_processTemplate (Suc k) fs c data content =
        Some (Return (content, None, data)))"
proof (intro conjI impI)
  assume "pieces includeRegex content = ps1 @ map Plain span @ ps2"
  then show "processIncludes (Suc k) fs content =
        (case replaceAllOpt (includeCallback fs (processIncludes k fs)) ps1 of
           None \<Rightarrow> None
         | Some a \<Rightarrow>
             (case replaceAllOpt (includeCallback fs (processIncludes k fs)) ps2 of
                None \<Rightarrow> None
              | Some b \<Rightarrow> Some (a @ span @ b)))"
    by (simp add: replaceAllOpt_append replaceAllOpt_Plain split: option.splits)
next
  assume "pieces codeRegex content = ps1 @ map Plain span @ ps2"
  then show "processCodeExpressions data content =
        (case codePieces data ps1 of
           Panic e \<Rightarrow> Panic e
         | Return (a, data1) \<Rightarrow>
             (case codePieces data1 ps2 of
                Panic e \<Rightarrow> Panic e
              | Return (b, data2) \<Rightarrow> Return (a @ span @ b, data2)))"
    by (simp add: processCodeExpressions_def codePieces_append codePieces_Plain
          split: outcome.splits)
next
  assume "pieces outputRegex content = ps1 @ map Plain span @ ps2"
  then show "processOutputTags data c content =
        replaceAll (outputCallback data c) ps1 @ span @ replaceAll (outputCallback data c) ps2"
    by (simp add: processOutputTags_def replaceAll_append replaceAll_Plain)
next
  assume "pieces includeRegex content = map Plain content \<and>
    pieces codeRegex content = map Plain content \<and>
    pieces outputRegex content = map Plain content"
  then show "TemplateProcessor_processTemplate (Suc k) fs c data content =
        Some (Return (content, None, data))"
    by (simp add: no_directive_identity)
qed

theorem unmatched_text_is_copied_witness:
  "processIncludes (Suc (Suc 0)) demoFiles ''<i>x</i><%@include file=\"header.html\" %>'' =
     Some ''<i>x</i><h1>Site</h1>'' \<and>
   (case processCodeExpressions requestData ''<% a = 1 %>a < b'' of
      Return (out, data') \<Rightarrow> out = ''a < b'' \<and> data' ''a'' = Some (VString ''1'')
    | Panic e \<Rightarrow> False) \<and>
   processOutputTags requestData demoContext ''50% <%= request.method %>'' = ''50% GET'' \<and>
   TemplateProcessor_processTemplate (Suc 0) demoFiles demoContext requestData ''<p>100 %</p>'' =
     Some (Return (''<p>100 %</p>'', None, requestData))"
proof -
  have i: "pieces includeRegex ''<i>x</i><%@include file=\"header.html\" %>'' =
             [] @ map Plain ''<i>x</i>'' @ [Matched ''<%@include file=\"header.html\" %>'']"
    by code_simp
  have c: "pieces codeRegex ''<% a = 1 %>a < b'' =
             [Matched ''<% a = 1 %>''] @ map Plain ''a < b'' @ []"
    by code_simp
  have ca: "codeCallback requestData ''<% a = 1 %>'' = Return ([], requestData(''a'' \<mapsto> VString ''1''))"
  proof -
    have f: "FindStringSubmatch codeRegex ''<% a = 1 %>'' = [''<% a = 1 %>'', ''a = 1 '']"
      by code_simp
    have t: "TrimSpace ''a = 1 '' = ''a = 1''" "TrimSpace ''a '' = ''a''" "TrimSpace '' 1'' = ''1''"
      by code_simp+
    show ?thesis
      unfolding codeCallback_def f
      by (simp add: t Contains_def SplitN2_def HasPrefix_def)
  qed
  have o: "pieces outputRegex ''50% <%= request.method %>'' =
             [] @ map Plain ''50% '' @ [Matched ''<%= request.method %>'']"
    by code_simp
  have oc: "outputCallback requestData demoContext ''<%= request.method %>'' = ''GET''"
    by code_simp
  have n: "pieces includeRegex ''<p>100 %</p>'' = map Plain ''<p>100 %</p>'' \<and>
    pieces codeRegex ''<p>100 %</p>'' = map Plain ''<p>100 %</p>'' \<and>
    pieces outputRegex ''<p>100 %</p>'' = map Plain ''<p>100 %</p>''"
    by code_simp
  have h: "processIncludes (Suc 0) demoFiles ''<h1>Site</h1>'' = Some ''<h1>Site</h1>''"
    by code_simp
  have ic: "includeCallback demoFiles (processIncludes (Suc 0) demoFiles) ''<%@include file=\"header.html\" %>'' =
     Some ''<h1>Site</h1>''"
  proof -
    have f: "FindStringSubmatch includeRegex ''<%@include file=\"header.html\" %>'' =
       [''<%@include file=\"header.html\" %>'', ''header.html'']" by code_simp
    show ?thesis unfolding includeCallback_def f using h by (simp add: demoFiles_def)
  qed
  note t1 = unmatched_text_is_copied[where content="''<i>x</i><%@include file=\"header.html\" %>''"
     and ?ps1.0="[]" and span="''<i>x</i>''" and ?ps2.0="[Matched ''<%@include file=\"header.html\" %>'']"
     and k="Suc 0" and fs=demoFiles, THEN conjunct1, rule_format, OF i]
  note t2 = unmatched_text_is_copied[where content="''<% a = 1 %>a < b''"
     and ?ps1.0="[Matched ''<% a = 1 %>'']" and span="''a < b''" and ?ps2.0="[]" and data=requestData,
     THEN conjunct2, THEN conjunct1, rule_format, OF c]
  note t3 = unmatched_text_is_copied[where content="''50% <%= request.method %>''"
     and ?ps1.0="[]" and span="''50% ''" and ?ps2.0="[Matched ''<%= request.method %>'']"
     and data=requestData and c=demoContext,
     THEN conjunct2, THEN conjunct2, THEN conjunct1, rule_format, OF o]
  note t4 = unmatched_text_is_copied[where content="''<p>100 %</p>''" and k=0 and fs=demoFiles
     and c=demoContext and data=requestData,
     THEN conjunct2, THEN conjunct2, THEN conjunct2, rule_format, OF n]
  show ?thesis
    unfolding t1 t2 t3 t4 by (simp add: ic ca oc)
qed

section \<open>A percent sign inside a tag\<close>

lemma set_tl_dropWhile:
  assumes "\<forall>x\<in>set w. P x"
  shows "set (tl (dropWhile P (w @ x # r))) \<subseteq> set r"
proof -
  have "dropWhile P (w @ x # r) = dropWhile P (x # r)"
    using assms by (simp add: dropWhile_append2)
  moreover have "set (tl (dropWhile P (x # r))) \<subseteq> set r"
  proof (cases "P x")
    case True
    have "set (tl (dropWhile P r)) \<subseteq> set (dropWhile P r)"
      by (metis list.set_sel(2) tl_Nil subsetI)
    also have "\<dots> \<subseteq> set r" by (auto dest: set_dropWhileD)
    finally show ?thesis using True by simp
  next
    case False
    then show ?thesis by simp
  qed
  ultimately show ?thesis by simp
qed

text \<open>
  Claim C10, amended. An output tag \<open><%=\<close> body \<open>%>\<close> whose body holds a \<open>%\<close> is never matched as
  that tag. A code block \<open><%\<close> body \<open>%>\<close> whose body holds a \<open>%\<close> anywhere behind its first
  character that is not white space is never matched as that tag. The two examples of
  the claim, \<open><% x = "50%" %>\<close> and \<open><%= a % b %>\<close>, go through the expansion unchanged and
  leave the scope as it was. (A \<open>%\<close> that is the first character of a code block's body
  after the white space is accepted by \<open>[^=]\<close>: see the counterexample.)
\<close>

theorem percent_in_tag_body:
  "(CHR ''%'' \<in> set body \<longrightarrow>
      matchHere outputRegex (''<%='' @ body @ ''%>'' @ rest) \<noteq> Some (length body + 5, g)) \<and>
   (CHR ''%'' \<in> set (tl (dropWhile (inClass Space) body)) \<longrightarrow>
      matchHere codeRegex (''<%'' @ body @ ''%>'' @ rest) \<noteq> Some (length body + 4, g)) \<and>
   TemplateProcessor_processTemplate (Suc k) fs c data ''<% x = \"50%\" %>'' =
     Some (Return (''<% x = \"50%\" %>'', None, data)) \<and>
   TemplateProcessor_processTemplate (Suc k) fs c data ''<%= a % b %>'' =
     Some (Return (''<%= a % b %>'', None, data))"
proof (intro conjI impI)
  assume p: "CHR ''%'' \<in> set body"
  show "matchHere outputRegex (''<%='' @ body @ ''%>'' @ rest) \<noteq> Some (length body + 5, g)"
  proof
    assume "matchHere outputRegex (''<%='' @ body @ ''%>'' @ rest) = Some (length body + 5, g)"
    from outputRegex_shape[OF this] obtain w w' rest'
      where s: "''<%='' @ body @ ''%>'' @ rest = ''<%='' @ w @ g @ w' @ ''%>'' @ rest'"
        and n: "length body + 5 = length w + length g + length w' + 5"
        and w: "\<forall>c\<in>set w. inClass Space c" and g: "CHR ''%'' \<notin> set g"
        and w': "\<forall>c\<in>set w'. inClass Space c"
      by blast
    from s have "body @ (''%>'' @ rest) = (w @ g @ w') @ (''%>'' @ rest')" by simp
    moreover from n have "length body = length (w @ g @ w')" by simp
    ultimately have "body = w @ g @ w'" by (metis append_eq_append_conv)
    with p have "CHR ''%'' \<in> set w \<or> CHR ''%'' \<in> set g \<or> CHR ''%'' \<in> set w'" by simp
    moreover have "\<not> inClass Space CHR ''%''" by simp
    ultimately show False using w g w' by blast
  qed
next
  assume p: "CHR ''%'' \<in> set (tl (dropWhile (inClass Space) body))"
  show "matchHere codeRegex (''<%'' @ body @ ''%>'' @ rest) \<noteq> Some (length body + 4, g)"
  proof
    assume "matchHere codeRegex (''<%'' @ body @ ''%>'' @ rest) = Some (length body + 4, g)"
    from codeRegex_shape[OF this] obtain w x b w' rest'
      where s: "''<%'' @ body @ ''%>'' @ rest = ''<%'' @ w @ x # b @ w' @ ''%>'' @ rest'"
        and n: "length body + 4 = length w + length b + length w' + 5"
        and w: "\<forall>c\<in>set w. inClass Space c" and b: "CHR ''%'' \<notin> set b"
        and w': "\<forall>c\<in>set w'. inClass Space c"
      by blast
    from s have "body @ (''%>'' @ rest) = (w @ x # b @ w') @ (''%>'' @ rest')" by simp
    moreover from n have "length body = length (w @ x # b @ w')" by simp
    ultimately have bd: "body = w @ x # (b @ w')" by (metis append_eq_append_conv append.assoc append_Cons)
    have "set (tl (dropWhile (inClass Space) body)) \<subseteq> set (b @ w')"
      unfolding bd by (rule set_tl_dropWhile[OF w])
    with p have "CHR ''%'' \<in> set b \<or> CHR ''%'' \<in> set w'" by auto
    moreover have "\<not> inClass Space CHR ''%''" by simp
    ultimately show False using b w' by blast
  qed
next
  have "pieces includeRegex ''<% x = \"50%\" %>'' = map Plain ''<% x = \"50%\" %>''"
    "pieces codeRegex ''<% x = \"50%\" %>'' = map Plain ''<% x = \"50%\" %>''"
    "pieces outputRegex ''<% x = \"50%\" %>'' = map Plain ''<% x = \"50%\" %>''"
    by code_simp+
  then show "TemplateProcessor_processTemplate (Suc k) fs c data ''<% x = \"50%\" %>'' =
     Some (Return (''<% x = \"50%\" %>'', None, data))"
    by (rule no_directive_identity)
next
  have "pieces includeRegex ''<%= a % b %>'' = map Plain ''<%= a % b %>''"
    "pieces codeRegex ''<%= a % b %>'' = map Plain ''<%= a % b %>''"
    "pieces outputRegex ''<%= a % b %>'' = map Plain ''<%= a % b %>''"
    by code_simp+
  then show "TemplateProcessor_processTemplate (Suc k) fs c data ''<%= a % b %>'' =
     Some (Return (''<%= a % b %>'', None, data))"
    by (rule no_directive_identity)
qed

theorem percent_in_tag_body_witness:
  "matchHere outputRegex ''<%= a % b %>'' \<noteq> Some (12, ''a % b '') \<and>
   matchHere codeRegex ''<% x = \"50%\" %>'' \<noteq> Some (15, ''x = \"50%\" '')"
proof -
  have a: "CHR ''%'' \<in> set '' a % b ''" by simp
  have b: "CHR ''%'' \<in> set (tl (dropWhile (inClass Space) '' x = \"50%\" ''))" by simp
  from percent_in_tag_body[where body="'' a % b ''" and rest="[]" and g="''a % b ''",
      THEN conjunct1, rule_format, OF a]
  have "matchHere outputRegex ''<%= a % b %>'' \<noteq> Some (12, ''a % b '')" by simp
  moreover
  from percent_in_tag_body[where body="'' x = \"50%\" ''" and rest="[]" and g="''x = \"50%\" ''",
      THEN conjunct2, THEN conjunct1, rule_format, OF b]
  have "matchHere codeRegex ''<% x = \"50%\" %>'' \<noteq> Some (15, ''x = \"50%\" '')" by simp
  ultimately show ?thesis by simp
qed

text \<open>
  Claim C10 as stated fails for a code block: in \<open><% %x = 1 %>\<close> the body holds a \<open>%\<close> before
  the closing delimiter, and yet the block is matched, removed from the text and executed as
  the assignment of \<open>1\<close> to the name \<open>%x\<close>.
\<close>

theorem percent_first_in_body_counterexample:
  "matchHere codeRegex ''<% %x = 1 %>'' = Some (12, ''%x = 1 '') \<and>
   (case processCodeExpressions Map.empty ''<% %x = 1 %>'' of
      Return (out, data') \<Rightarrow> out = [] \<and> data' ''%x'' = Some (VString ''1'')
    | Panic e \<Rightarrow> False)"
  by code_simp

section \<open>The generated program against the server\<close>

lemma replaceAllOpt_cong:
  "(\<And>m. Matched m \<in> set ps \<Longrightarrow> f m = g m) \<Longrightarrow> replaceAllOpt f ps = replaceAllOpt g ps"
  by (induction f ps rule: replaceAllOpt.induct) (auto split: option.splits)

lemma replaceAll_cong:
  "(\<And>m. Matched m \<in> set ps \<Longrightarrow> f m = g m) \<Longrightarrow> replaceAll f ps = replaceAll g ps"
  by (induction f ps rule: replaceAll.induct) auto

lemma piece_includeTarget:
  "Matched m \<in> set (pieces includeRegex content) \<Longrightarrow>
   FindStringSubmatch includeRegex m = [m0, f] \<Longrightarrow> f \<in> set (includeTargets content)"
  unfolding includeTargets_def by (force simp: image_iff)

lemma piece_outputExpression:
  "Matched m \<in> set (pieces outputRegex content) \<Longrightarrow>
   FindStringSubmatch outputRegex m = [m0, g] \<Longrightarrow> TrimSpace g \<in> set (outputExpressions content)"
  unfolding outputExpressions_def by (force simp: image_iff)

lemma embedded_processIncludes_agrees:
  assumes "\<forall>f\<in>S. \<exists>t. tbl f = Some t \<and> readFile fs f = Inr t \<and> set (includeTargets t) \<subseteq> S"
  shows "set (includeTargets content) \<subseteq> S \<Longrightarrow>
         embedded_processIncludes k tbl content = processIncludes k fs content"
proof (induction k arbitrary: content)
  case 0
  show ?case by simp
next
  case (Suc k)
  have "embedded_includeCallback tbl (embedded_processIncludes k tbl) m =
        includeCallback fs (processIncludes k fs) m"
    if m: "Matched m \<in> set (pieces includeRegex content)" for m
  proof (cases "\<exists>m0 f. FindStringSubmatch includeRegex m = [m0, f]")
    case True
    then obtain m0 f where f: "FindStringSubmatch includeRegex m = [m0, f]" by blast
    from piece_includeTarget[OF m f] Suc.prems have "f \<in> S" by blast
    with assms obtain t where t: "tbl f = Some t" "readFile fs f = Inr t"
      "set (includeTargets t) \<subseteq> S" by blast
    from Suc.IH[OF t(3)] f t(1,2) show ?thesis
      by (simp add: embedded_includeCallback_def includeCallback_def)
  next
    case False
    then show ?thesis
      by (auto simp: embedded_includeCallback_def includeCallback_def split: list.splits)
  qed
  then show ?case
    unfolding embedded_processIncludes.simps processIncludes.simps by (rule replaceAllOpt_cong)
qed

lemma codeCallback_agrees:
  assumes "\<forall>x. x \<noteq> key \<longrightarrow> d1 x = d2 x"
  shows "case (codeCallback d1 m, codeCallback d2 m) of
           (Panic e1, Panic e2) \<Rightarrow> e1 = e2
         | (Return (o1, d1'), Return (o2, d2')) \<Rightarrow> o1 = o2 \<and> (\<forall>x. x \<noteq> key \<longrightarrow> d1' x = d2' x)
         | _ \<Rightarrow> False"
  using assms by (auto simp: codeCallback_def Let_def split: list.splits)

lemma codePieces_agrees:
  assumes "\<forall>x. x \<noteq> key \<longrightarrow> d1 x = d2 x"
  shows "case (codePieces d1 ps, codePieces d2 ps) of
           (Panic e1, Panic e2) \<Rightarrow> e1 = e2
         | (Return (o1, d1'), Return (o2, d2')) \<Rightarrow> o1 = o2 \<and> (\<forall>x. x \<noteq> key \<longrightarrow> d1' x = d2' x)
         | _ \<Rightarrow> False"
  using assms
proof (induction ps arbitrary: d1 d2)
  case Nil
  then show ?case by simp
next
  case (Cons p ps)
  show ?case
  proof (cases p)
    case (Plain c)
    with Cons.IH[OF Cons.prems] show ?thesis
      by (auto split: outcome.splits)
  next
    case (Matched m)
    show ?thesis
    proof (cases "codeCallback d1 m")
      case (Panic e)
      with codeCallback_agrees[OF Cons.prems, of m] Matched show ?thesis
        by (auto split: outcome.splits)
    next
      case (Return r1)
      obtain o1 d1' where r1: "r1 = (o1, d1')" by (cases r1)
      from codeCallback_agrees[OF Cons.prems, of m] Return r1
      obtain d2' where r2: "codeCallback d2 m = Return (o1, d2')"
        and a: "\<forall>x. x \<noteq> key \<longrightarrow> d1' x = d2' x"
        by (auto split: outcome.splits)
      from Cons.IH[OF a] Return r1 r2 Matched show ?thesis
        by (auto split: outcome.splits)
    qed
  qed
qed

lemma embedded_evaluate_agrees:
  assumes "\<forall>x. x \<noteq> ''params'' \<longrightarrow> d1 x = d2 x" and "\<not> simplifiedAway d1 e"
  shows "embedded_evaluate d2 c e = evaluate d1 c e"
proof -
  from assms have e: "d2 e = d1 e" by (auto simp: simplifiedAway_def)
  show ?thesis
  proof (cases "d1 e")
    case (Some v)
    with e show ?thesis by (simp add: embedded_evaluate_def evaluate_def)
  next
    case None
    with assms(2) have "e \<noteq> ''request.remoteaddr''"
      and "HasPrefix e ''request.'' \<or> HasPrefix e ''query.'' \<or> HasPrefix e ''form.'' \<or>
           \<not> Contains e CHR ''+''"
      by (auto simp: simplifiedAway_def)
    with None e show ?thesis
      by (auto simp: embedded_evaluate_def evaluate_def embedded_handleRequestExpression_def
            handleRequestExpression_def)
  qed
qed

lemma embedded_processOutputTags_agrees:
  assumes "\<forall>x. x \<noteq> ''params'' \<longrightarrow> d1 x = d2 x"
    and "\<forall>e\<in>set (outputExpressions content). \<not> simplifiedAway d1 e"
  shows "embedded_processOutputTags d2 c content = processOutputTags d1 c content"
proof -
  have "embedded_outputCallback d2 c m = outputCallback d1 c m"
    if m: "Matched m \<in> set (pieces outputRegex content)" for m
  proof (cases "\<exists>m0 g. FindStringSubmatch outputRegex m = [m0, g]")
    case True
    then obtain m0 g where g: "FindStringSubmatch outputRegex m = [m0, g]" by blast
    from piece_outputExpression[OF m g] assms(2) have "\<not> simplifiedAway d1 (TrimSpace g)"
      by blast
    from embedded_evaluate_agrees[OF assms(1) this] g show ?thesis
      by (simp add: embedded_outputCallback_def outputCallback_def)
  next
    case False
    then show ?thesis
      by (auto simp: embedded_outputCallback_def outputCallback_def split: list.splits)
  qed
  then show ?thesis
    unfolding embedded_processOutputTags_def processOutputTags_def by (rule replaceAll_cong)
qed

lemma requestData_agree: "\<forall>x. x \<noteq> ''params'' \<longrightarrow> requestData x = embedded_requestData x"
  by (simp add: requestData_def embedded_requestData_def)

lemma embedded_method_agrees:
  assumes inc: "set (includeTargets content) \<subseteq> S"
    and snap: "\<forall>f\<in>S. \<exists>t. tbl f = Some t \<and> readFile fs f = Inr t \<and> set (includeTargets t) \<subseteq> S"
    and out: "\<forall>included executed data'.
        processIncludes k fs content = Some included \<longrightarrow>
        processCodeExpressions requestData included = Return (executed, data') \<longrightarrow>
        (\<forall>e\<in>set (outputExpressions executed). \<not> simplifiedAway data' e)"
  shows "returned (embedded_TemplateProcessor_processTemplate k tbl c embedded_requestData content) =
         returned (TemplateProcessor_processTemplate k fs c requestData content)"
proof (cases "processIncludes k fs content")
  case None
  with embedded_processIncludes_agrees[OF snap inc, of k] show ?thesis
    by (simp add: embedded_TemplateProcessor_processTemplate_def
          TemplateProcessor_processTemplate_def)
next
  case (Some included)
  with embedded_processIncludes_agrees[OF snap inc, of k]
  have ei: "embedded_processIncludes k tbl content = Some included" by simp
  note ag = codePieces_agrees[OF requestData_agree, of "pieces codeRegex included"]
  show ?thesis
  proof (cases "processCodeExpressions requestData included")
    case (Panic e)
    with ag have "embedded_processCodeExpressions embedded_requestData included = Panic e"
      by (auto simp: processCodeExpressions_def embedded_processCodeExpressions_def
            split: outcome.splits)
    with Panic Some ei show ?thesis
      by (simp add: embedded_TemplateProcessor_processTemplate_def
            TemplateProcessor_processTemplate_def returned_def)
  next
    case (Return r)
    obtain executed data' where r: "r = (executed, data')" by (cases r)
    from ag Return r obtain data2
      where e2: "embedded_processCodeExpressions embedded_requestData included =
                   Return (executed, data2)"
        and a: "\<forall>x. x \<noteq> ''params'' \<longrightarrow> data' x = data2 x"
      by (auto simp: processCodeExpressions_def embedded_processCodeExpressions_def
            split: outcome.splits)
    from out Some Return r have "\<forall>e\<in>set (outputExpressions executed). \<not> simplifiedAway data' e"
      by blast
    from embedded_processOutputTags_agrees[OF a this]
    have "embedded_processOutputTags data2 c executed = processOutputTags data' c executed" .
    with Some ei Return r e2 show ?thesis
      by (simp add: embedded_TemplateProcessor_processTemplate_def
            TemplateProcessor_processTemplate_def returned_def)
  qed
qed

lemma returned_handler:
  assumes "returned a = returned b"
  shows "(case a of
             None \<Rightarrow> None
           | Some (Panic e) \<Rightarrow> Some (Panic e)
           | Some (Return (processedContent, Some err, data')) \<Rightarrow>
               Some (Return (String 500 (''Template processing error: '' @ err)))
           | Some (Return (processedContent, None, data')) \<Rightarrow>
               Some (Return (HTML 200 processedContent))) =
         (case b of
             None \<Rightarrow> None
           | Some (Panic e) \<Rightarrow> Some (Panic e)
           | Some (Return (processedContent, Some err, data')) \<Rightarrow>
               Some (Return (String 500 (''Template processing error: '' @ err)))
           | Some (Return (processedContent, None, data')) \<Rightarrow>
               Some (Return (HTML 200 processedContent)))"
  using assms
  by (cases a; cases b) (auto simp: returned_def split: outcome.splits option.splits)

lemma embedded_setupRoutes_agrees:
  assumes "\<forall>r\<in>set routes. \<forall>m\<in>set (Methods r). upper m \<noteq> ''PATCH''"
  shows "embedded_setupRoutes upper routes = setupRoutes upper routes"
proof -
  have "concat (map (\<lambda>method.
        let m = upper method in
        if m = ''GET'' then [GET (Path route) (CreateHandler (File route))]
        else if m = ''POST'' then [POST (Path route) (CreateHandler (File route))]
        else if m = ''PUT'' then [PUT (Path route) (CreateHandler (File route))]
        else if m = ''DELETE'' then [DELETE (Path route) (CreateHandler (File route))]
        else if m = ''ANY'' then [Any (Path route) (CreateHandler (File route))]
        else []) ms) =
     concat (map (\<lambda>method.
        let m = upper method in
        if m = ''GET'' then [GET (Path route) (CreateHandler (File route))]
        else if m = ''POST'' then [POST (Path route) (CreateHandler (File route))]
        else if m = ''PUT'' then [PUT (Path route) (CreateHandler (File route))]
        else if m = ''DELETE'' then [DELETE (Path route) (CreateHandler (File route))]
        else if m = ''PATCH'' then [PATCH (Path route) (CreateHandler (File route))]
        else if m = ''ANY'' then [Any (Path route) (CreateHandler (File route))]
        else []) ms)"
    if "\<forall>m\<in>set ms. upper m \<noteq> ''PATCH''" for ms and route :: Route
    using that by (induction ms) (simp_all add: Let_def)
  then have "(\<lambda>route. concat (map (\<lambda>method.
        let m = upper method in
        if m = ''GET'' then [GET (Path route) (CreateHandler (File route))]
        else if m = ''POST'' then [POST (Path route) (CreateHandler (File route))]
        else if m = ''PUT'' then [PUT (Path route) (CreateHandler (File route))]
        else if m = ''DELETE'' then [DELETE (Path route) (CreateHandler (File route))]
        else if m = ''ANY'' then [Any (Path route) (CreateHandler (File route))]
        else []) (Methods route))) r =
     (\<lambda>route. concat (map (\<lambda>method.
        let m = upper method in
        if m = ''GET'' then [GET (Path route) (CreateHandler (File route))]
        else if m = ''POST'' then [POST (Path route) (CreateHandler (File route))]
        else if m = ''PUT'' then [PUT (Path route) (CreateHandler (File route))]
        else if m = ''DELETE'' then [DELETE (Path route) (CreateHandler (File route))]
        else if m = ''PATCH'' then [PATCH (Path route) (CreateHandler (File route))]
        else if m = ''ANY'' then [Any (Path route) (CreateHandler (File route))]
        else []) (Methods route))) r" if "r \<in> set routes" for r
    using that assms by simp
  then show ?thesis
    unfolding embedded_setupRoutes_def setupRoutes_def
    by (simp cong: map_cong)
qed

text \<open>
  Claim C2 as stated fails: the generated program is a simplified version of the server.
  Its evaluator has no arithmetic rule and no \<open>request.remoteaddr\<close>, and its \<open>setupRoutes\<close> has no
  case for \<open>PATCH\<close>. On the same content \<open><%= 2 + 3 %>\<close> the server answers \<open>5\<close> and the
  generated program \<open>2 + 3\<close>.
\<close>

theorem compiled_mode_counterexample:
  "returned (TemplateProcessor_processTemplate 1 demoFiles demoContext requestData
               ''<%= 2 + 3 %>'') = Some (Return (''5'', None)) \<and>
   returned (embedded_TemplateProcessor_processTemplate 1 demoTemplates demoContext
               embedded_requestData ''<%= 2 + 3 %>'') = Some (Return (''2 + 3'', None)) \<and>
   processOutputTags requestData demoContext ''<%= request.remoteaddr %>'' = ''127.0.0.1:4000'' \<and>
   embedded_processOutputTags embedded_requestData demoContext ''<%= request.remoteaddr %>'' =
     ''request.remoteaddr'' \<and>
   setupRoutes asciiToUpper [\<lparr>Path = ''/p'', File = ''p.html'', Methods = [''patch'']\<rparr>] =
     [PATCH ''/p'' (CreateHandler ''p.html''), Any ''/*'' FileBasedHandler] \<and>
   embedded_setupRoutes asciiToUpper [\<lparr>Path = ''/p'', File = ''p.html'', Methods = [''patch'']\<rparr>] =
     [Any ''/*'' FileBasedHandler]"
  by code_simp

text \<open>
  Claim C2, amended. Let \<open>S\<close> be a set of file names that holds the include targets of the
  document and of every file in \<open>S\<close>, and on which the embedded table has the content that
  the file system has. If none of the output expressions that the expansion meets is
  \<open>params\<close>, nor, when unbound, \<open>request.remoteaddr\<close> or an expression for the arithmetic rule,
  then the generated program's expansion returns the content and error that the server's
  expansion returns (or neither returns), the two request handlers give the same response
  for a template that both find with that content, and the two route setups register the
  same handlers provided that no method of a route is \<open>PATCH\<close>.
\<close>

theorem embedded_expansion_agrees:
  assumes "set (includeTargets content) \<subseteq> S"
    and "\<forall>f\<in>S. \<exists>t. embeddedTemplates f = Some t \<and> readFile fs f = Inr t \<and>
                  set (includeTargets t) \<subseteq> S"
    and "\<forall>included executed data'.
        processIncludes k fs content = Some included \<longrightarrow>
        processCodeExpressions requestData included = Return (executed, data') \<longrightarrow>
        (\<forall>e\<in>set (outputExpressions executed). \<not> simplifiedAway data' e)"
  shows "returned (embedded_TemplateProcessor_processTemplate k embeddedTemplates c
                     embedded_requestData content) =
         returned (TemplateProcessor_processTemplate k fs c requestData content) \<and>
         (embeddedTemplates filename = Some content \<and> \<not> notExist fs filename \<and>
          readFile fs filename = Inr content \<longrightarrow>
            embedded_processTemplate k embeddedTemplates c filename =
              processTemplate k fs c filename \<and>
            embedded_serve k embeddedTemplates c (CreateHandler filename) =
              serve k fs c (CreateHandler filename)) \<and>
         ((\<forall>r\<in>set routes. \<forall>m\<in>set (Methods r). upper m \<noteq> ''PATCH'') \<longrightarrow>
            embedded_setupRoutes upper routes = setupRoutes upper routes)"
proof (intro conjI impI)
  show m: "returned (embedded_TemplateProcessor_processTemplate k embeddedTemplates c
                     embedded_requestData content) =
         returned (TemplateProcessor_processTemplate k fs c requestData content)"
    using assms by (rule embedded_method_agrees)
  assume f: "embeddedTemplates filename = Some content \<and> \<not> notExist fs filename \<and>
          readFile fs filename = Inr content"
  show h: "embedded_processTemplate k embeddedTemplates c filename =
              processTemplate k fs c filename"
    unfolding embedded_processTemplate_def processTemplate_def
    using f returned_handler[OF m] by simp
  show "embedded_serve k embeddedTemplates c (CreateHandler filename) =
              serve k fs c (CreateHandler filename)"
    using h by (simp add: embedded_createHandler_def createHandler_def)
next
  assume "\<forall>r\<in>set routes. \<forall>m\<in>set (Methods r). upper m \<noteq> ''PATCH''"
  then show "embedded_setupRoutes upper routes = setupRoutes upper routes"
    by (rule embedded_setupRoutes_agrees)
qed

theorem embedded_expansion_agrees_witness:
  "embedded_processTemplate 2 demoTemplates demoContext ''index.html'' =
     processTemplate 2 demoFiles demoContext ''index.html'' \<and>
   processTemplate 2 demoFiles demoContext ''index.html'' =
     Some (Return (HTML 200 ''<h1>Site</h1><p>Hello World</p>'')) \<and>
   embedded_setupRoutes asciiToUpper
       [\<lparr>Path = ''/greet'', File = ''index.html'', Methods = [''get'', ''Post'']\<rparr>] =
     setupRoutes asciiToUpper
       [\<lparr>Path = ''/greet'', File = ''index.html'', Methods = [''get'', ''Post'']\<rparr>]"
proof -
  let ?idx = "''<%@include file=\"header.html\" %><% who = \"World\" %><p>Hello <%= who %></p>''"
  let ?D = "''<h1>Site</h1><% who = \"World\" %><p>Hello <%= who %></p>''"
  let ?E = "''<h1>Site</h1><p>Hello <%= who %></p>''"
  have inc: "set (includeTargets ?idx) \<subseteq> {''header.html''}"
  proof -
    have "includeTargets ?idx = [''header.html'']" by code_simp
    then show ?thesis by simp
  qed
  have snap: "\<forall>f\<in>{''header.html''}. \<exists>t. demoTemplates f = Some t \<and> readFile demoFiles f = Inr t \<and>
                  set (includeTargets t) \<subseteq> {''header.html''}"
  proof -
    have "includeTargets ''<h1>Site</h1>'' = []" by code_simp
    then show ?thesis by (simp add: demoTemplates_def demoFiles_def)
  qed
  have i: "processIncludes 2 demoFiles ?idx = Some ?D" by code_simp
  have pc: "pieces codeRegex ?D =
      map Plain ''<h1>Site</h1>'' @ Matched ''<% who = \"World\" %>'' #
      map Plain ''<p>Hello <%= who %></p>''"
    by code_simp
  have cb: "codeCallback d ''<% who = \"World\" %>'' = Return ([], d(''who'' \<mapsto> VString ''World''))"
    for d
  proof -
    have f: "FindStringSubmatch codeRegex ''<% who = \"World\" %>'' =
               [''<% who = \"World\" %>'', ''who = \"World\" '']"
      by code_simp
    have t: "TrimSpace ''who = \"World\" '' = ''who = \"World\"''" "TrimSpace ''who '' = ''who''"
      "TrimSpace '' \"World\"'' = ''\"World\"''"
      by code_simp+
    show ?thesis
      unfolding codeCallback_def f
      by (simp add: t Contains_def SplitN2_def HasPrefix_def HasSuffix_def)
  qed
  have ce: "processCodeExpressions requestData ?D =
              Return (?E, requestData(''who'' \<mapsto> VString ''World''))"
    unfolding processCodeExpressions_def pc
    by (simp add: codePieces_append codePieces_Plain cb del: map_eq_Cons_conv)
  have oe: "outputExpressions ?E = [''who'']" by code_simp
  have out: "\<forall>included executed data'.
        processIncludes 2 demoFiles ?idx = Some included \<longrightarrow>
        processCodeExpressions requestData included = Return (executed, data') \<longrightarrow>
        (\<forall>e\<in>set (outputExpressions executed). \<not> simplifiedAway data' e)"
    using i ce oe by (auto simp: simplifiedAway_def)
  have fl: "demoTemplates ''index.html'' = Some ?idx \<and> \<not> notExist demoFiles ''index.html'' \<and>
          readFile demoFiles ''index.html'' = Inr ?idx"
    by (simp add: demoTemplates_def demoFiles_def)
  have up: "\<forall>r\<in>set [\<lparr>Path = ''/greet'', File = ''index.html'', Methods = [''get'', ''Post'']\<rparr>].
              \<forall>m\<in>set (Methods r). asciiToUpper m \<noteq> ''PATCH''"
    by (simp add: asciiToUpper_def)
  note t = embedded_expansion_agrees[OF inc snap out, where c=demoContext
      and filename="''index.html''" and upper=asciiToUpper
      and routes="[\<lparr>Path = ''/greet'', File = ''index.html'', Methods = [''get'', ''Post'']\<rparr>]"]
  have v: "processTemplate 2 demoFiles demoContext ''index.html'' =
     Some (Return (HTML 200 ''<h1>Site</h1><p>Hello World</p>''))"
    by code_simp
  from t fl up v show ?thesis by blast
qed

section \<open>TrimSpace on padded text\<close>

lemma trimLeftRunes_unfold:
  "trimLeftRunes rs s =
     (if leadingSpace rs s = 0 then s else trimLeftRunes rs (drop (leadingSpace rs s) s))"
  by (subst trimLeftRunes.simps) (simp add: Let_def)

lemma trimLeftRunes_id: "leadingSpace rs s = 0 \<Longrightarrow> trimLeftRunes rs s = s"
  by (subst trimLeftRunes_unfold) simp

lemma length_trimLeftRunes: "length (trimLeftRunes rs s) \<le> length s"
proof (induction rs s rule: trimLeftRunes.induct)
  case (1 rs s)
  show ?case
  proof (cases "leadingSpace rs s = 0")
    case True
    then show ?thesis by (simp add: trimLeftRunes_id)
  next
    case False
    from 1[OF refl False] have "length (trimLeftRunes rs (drop (leadingSpace rs s) s)) \<le> length s"
      by simp
    with False show ?thesis by (subst trimLeftRunes_unfold) simp
  qed
qed

lemma trimLeftRunes_fixed:
  assumes "length (trimLeftRunes rs s) = length s"
  shows "leadingSpace rs s = 0"
proof (rule ccontr)
  assume n: "leadingSpace rs s \<noteq> 0"
  have "length (trimLeftRunes rs s) = length (trimLeftRunes rs (drop (leadingSpace rs s) s))"
    using n by (subst trimLeftRunes_unfold) simp
  also have "\<dots> \<le> length (drop (leadingSpace rs s) s)" by (rule length_trimLeftRunes)
  also have "\<dots> < length s"
    using n leadingSpace_le[of rs s] by simp
  finally show False using assms by simp
qed

lemma TrimSpace_fixed:
  assumes "TrimSpace s = s"
  shows "leadingSpace spaceRunes s = 0 \<and> leadingSpace (map rev spaceRunes) (rev s) = 0"
proof -
  let ?l = "trimLeftRunes spaceRunes s"
  let ?r = "trimLeftRunes (map rev spaceRunes) (rev ?l)"
  have "length s = length ?r" using assms by (metis TrimSpace_def length_rev)
  moreover have "length ?r \<le> length ?l" using length_trimLeftRunes[of _ "rev ?l"] by simp
  moreover have "length ?l \<le> length s" by (rule length_trimLeftRunes)
  ultimately have a: "length ?l = length s" and b: "length ?r = length (rev ?l)" by simp_all
  from trimLeftRunes_fixed[OF a] have l: "leadingSpace spaceRunes s = 0" .
  then have "?l = s" by (rule trimLeftRunes_id)
  with trimLeftRunes_fixed[OF b] l show ?thesis by simp
qed

lemma leadingSpace_single:
  "leadingSpace spaceRunes (CHR '' '' # s) = 1"
  "leadingSpace (map rev spaceRunes) (CHR '' '' # s) = 1"
  by (simp_all add: spaceRunes_def)

lemma leadingSpace_quote:
  "leadingSpace spaceRunes (CHR 0x22 # s) = 0"
  "leadingSpace (map rev spaceRunes) (CHR 0x22 # s) = 0"
  by (simp_all add: spaceRunes_def)

lemma trimLeftRunes_space:
  "trimLeftRunes spaceRunes (CHR '' '' # s) = trimLeftRunes spaceRunes s"
  "trimLeftRunes (map rev spaceRunes) (CHR '' '' # s) = trimLeftRunes (map rev spaceRunes) s"
  by (subst trimLeftRunes_unfold, simp add: leadingSpace_single)+

lemma leadingSpace_append_space:
  assumes "\<forall>r\<in>set rs. CHR '' '' \<in> set r \<longrightarrow> length r = 1"
    and "s \<noteq> []" and "leadingSpace rs s = 0"
  shows "leadingSpace rs (s @ CHR '' '' # t) = 0"
  using assms(1,3)
proof (induction rs)
  case Nil
  show ?case by simp
next
  case (Cons r rs)
  from Cons.prems(2) have z: "leadingSpace rs s = 0" and n: "r = [] \<or> take (length r) s \<noteq> r"
    by (auto split: if_splits)
  have "\<not> (r \<noteq> [] \<and> take (length r) (s @ CHR '' '' # t) = r)"
  proof
    assume a: "r \<noteq> [] \<and> take (length r) (s @ CHR '' '' # t) = r"
    show False
    proof (cases "length r \<le> length s")
      case True
      with a n show False by simp
    next
      case False
      then have "length s < length r" by simp
      then have "take (length r) (s @ CHR '' '' # t) ! length s = CHR '' ''"
        by (simp add: nth_append)
      with a have "r ! length s = CHR '' ''" by simp
      with \<open>length s < length r\<close> have "CHR '' '' \<in> set r" by (metis nth_mem)
      with Cons.prems(1) have "length r = 1" by simp
      with \<open>length s < length r\<close> assms(2) show False by simp
    qed
  qed
  with Cons.IH Cons.prems(1) z show ?case by simp
qed

lemma spaceRunes_space:
  "\<forall>r\<in>set spaceRunes. CHR '' '' \<in> set r \<longrightarrow> length r = 1"
  by (simp add: spaceRunes_def)

lemma TrimSpace_padded_right:
  assumes "TrimSpace s = s" and "s \<noteq> []"
  shows "TrimSpace (s @ '' '') = s"
proof -
  from TrimSpace_fixed[OF assms(1)] have l: "leadingSpace spaceRunes s = 0"
    and r: "leadingSpace (map rev spaceRunes) (rev s) = 0" by simp_all
  have "leadingSpace spaceRunes (s @ '' '') = 0"
    using leadingSpace_append_space[OF spaceRunes_space assms(2) l] by simp
  then have "trimLeftRunes spaceRunes (s @ '' '') = s @ '' ''" by (rule trimLeftRunes_id)
  then show ?thesis
    by (simp add: TrimSpace_def trimLeftRunes_space trimLeftRunes_id[OF r])
qed

lemma TrimSpace_assignment:
  assumes "TrimSpace s = s" and "s \<noteq> []"
  shows "TrimSpace (s @ '' = \"'' @ v @ ''\" '') = s @ '' = \"'' @ v @ ''\"''"
proof -
  from TrimSpace_fixed[OF assms(1)] have l: "leadingSpace spaceRunes s = 0" by simp
  have "leadingSpace spaceRunes (s @ CHR '' '' # (''= \"'' @ v @ ''\" '')) = 0"
    by (rule leadingSpace_append_space[OF spaceRunes_space assms(2) l])
  then have "trimLeftRunes spaceRunes (s @ '' = \"'' @ v @ ''\" '') = s @ '' = \"'' @ v @ ''\" ''"
    by (intro trimLeftRunes_id) simp
  then show ?thesis
    by (simp add: TrimSpace_def trimLeftRunes_space trimLeftRunes_id leadingSpace_quote)
qed

lemma TrimSpace_quoted: "TrimSpace ('' \"'' @ v @ ''\"'') = ''\"'' @ v @ ''\"''"
  by (simp add: TrimSpace_def trimLeftRunes_space trimLeftRunes_id leadingSpace_quote)

lemma TrimSpace_hd:
  assumes "TrimSpace s = s" and "s \<noteq> []"
  shows "\<not> inClass Space (hd s)"
proof
  assume a: "inClass Space (hd s)"
  from assms(2) obtain x xs where s: "s = x # xs" by (cases s) auto
  from a s have "x = CHR 0x09 \<or> x = CHR 0x0A \<or> x = CHR 0x0C \<or> x = CHR 0x0D \<or> x = CHR 0x20"
    by simp
  then have "leadingSpace spaceRunes (x # xs) = 1"
    by (elim disjE) (simp_all add: spaceRunes_def)
  with TrimSpace_fixed[OF assms(1)] s show False by simp
qed

section \<open>The first match at a known tag\<close>

lemma matchHere_first:
  assumes "run (pre r) s = s1 # xs" and "run (grp r) s1 = s2 # ys" and "run (post r) s2 = s3 # zs"
  shows "matchHere r s = Some (length s - length s3, take (length s1 - length s2) s1)"
  using assms by (simp add: matchHere_def)

lemma run_Star_first:
  assumes "\<forall>x\<in>set u. inClass c x" and "v = [] \<or> \<not> inClass c (hd v)" and "run as v = r # rs"
  shows "\<exists>rs'. run (Star c # as) (u @ v) = r # rs'"
  using assms(1)
proof (induction u)
  case Nil
  from assms(2,3) show ?case by (cases v) auto
next
  case (Cons x u)
  then obtain rs' where "run (Star c # as) (u @ v) = r # rs'" by auto
  with Cons.prems show ?case by simp
qed

lemma run_Plus_first:
  assumes "u \<noteq> []" and "\<forall>x\<in>set u. inClass c x" and "v = [] \<or> \<not> inClass c (hd v)"
    and "run as v = r # rs"
  shows "\<exists>rs'. run (Plus c # as) (u @ v) = r # rs'"
proof -
  from assms(1) obtain x u' where u: "u = x # u'" by (cases u) auto
  with assms(2) have "\<forall>x\<in>set u'. inClass c x" and x: "inClass c x" by simp_all
  from run_Star_first[OF this(1) assms(3,4)] x u show ?thesis by simp
qed

lemma run_closing: "run [Star Space, Lit ''%>''] (''%>'' @ t) = [t]"
  by simp

text \<open>The code-block pattern on a block whose body starts with a character that is neither
  white space nor \<open>=\<close> and holds no \<open>%\<close>.\<close>

lemma codeRegex_block:
  assumes "body \<noteq> []" and "\<not> inClass Space (hd body)" and "hd body \<noteq> CHR ''=''"
    and "CHR ''%'' \<notin> set body"
  shows "matchHere codeRegex (''<% '' @ body @ ''%>'' @ t) = Some (length body + 5, body)"
proof -
  let ?s = "''<% '' @ body @ ''%>'' @ t"
  let ?s1 = "body @ ''%>'' @ t"
  from assms(1) obtain x b where body: "body = x # b" by (cases body) auto
  have "\<exists>rs. run [Star Space] ('' '' @ ?s1) = ?s1 # rs"
    by (rule run_Star_first) (use assms(2) body in simp_all)
  then obtain xs where 1: "run (pre codeRegex) ?s = ?s1 # xs"
    by (auto simp: codeRegex_def)
  have "\<exists>rs. run [Star (Except CHR ''%'')] (b @ ''%>'' @ t) = (''%>'' @ t) # rs"
    by (rule run_Star_first) (use assms(4) body in auto)
  then obtain ys where 2: "run (grp codeRegex) ?s1 = (''%>'' @ t) # ys"
    using assms(3) body by (auto simp: codeRegex_def)
  have 3: "run (post codeRegex) (''%>'' @ t) = t # []"
    by (simp add: codeRegex_def)
  from matchHere_first[OF 1 2 3] show ?thesis by simp
qed

lemma outputRegex_tag:
  assumes "body \<noteq> []" and "\<not> inClass Space (hd body)" and "CHR ''%'' \<notin> set body"
  shows "matchHere outputRegex (''<%= '' @ body @ ''%>'' @ t) = Some (length body + 6, body)"
proof -
  let ?s = "''<%= '' @ body @ ''%>'' @ t"
  let ?s1 = "body @ ''%>'' @ t"
  from assms(1) obtain x b where body: "body = x # b" by (cases body) auto
  have "\<exists>rs. run [Star Space] ('' '' @ ?s1) = ?s1 # rs"
    by (rule run_Star_first) (use assms(2) body in simp_all)
  then obtain xs where 1: "run (pre outputRegex) ?s = ?s1 # xs"
    by (auto simp: outputRegex_def)
  have "\<exists>rs. run [Plus (Except CHR ''%'')] (body @ ''%>'' @ t) = (''%>'' @ t) # rs"
    by (rule run_Plus_first) (use assms(1,3) in auto)
  then obtain ys where 2: "run (grp outputRegex) ?s1 = (''%>'' @ t) # ys"
    by (auto simp: outputRegex_def)
  have 3: "run (post outputRegex) (''%>'' @ t) = t # []"
    by (simp add: outputRegex_def)
  from matchHere_first[OF 1 2 3] show ?thesis by simp
qed

section \<open>Walking past a tag\<close>

lemma first_percent:
  assumes "CHR ''%'' \<notin> set a"
  shows "takeWhile (\<lambda>x. x \<noteq> CHR ''%'') (a @ CHR ''%'' # b) = a"
    and "dropWhile (\<lambda>x. x \<noteq> CHR ''%'') (a @ CHR ''%'' # b) = CHR ''%'' # b"
  using assms by (induction a) auto

text \<open>If the first \<open>%\<close> of \<open>u\<close> followed by a tag is closed by \<open>>\<close>, it is closed inside \<open>u\<close>.\<close>

lemma closing_inside:
  assumes eq: "u @ CHR ''<'' # CHR ''%'' # y # t = m @ ''%>'' @ rest"
    and m: "CHR ''%'' \<notin> set m" and y: "y \<noteq> CHR ''>''"
  shows "length m + 2 \<le> length u"
proof (cases "CHR ''%'' \<in> set u")
  case False
  then have "CHR ''%'' \<notin> set (u @ ''<'')" by simp
  from first_percent(2)[OF this, of "y # t"]
  have "dropWhile (\<lambda>x. x \<noteq> CHR ''%'') (u @ CHR ''<'' # CHR ''%'' # y # t) = CHR ''%'' # y # t"
    by simp
  moreover from first_percent(2)[OF m, of "CHR ''>'' # rest"]
  have "dropWhile (\<lambda>x. x \<noteq> CHR ''%'') (m @ ''%>'' @ rest) = CHR ''%'' # CHR ''>'' # rest"
    by simp
  ultimately show ?thesis using eq y by simp
next
  case True
  then obtain u1 u2 where u: "u = u1 @ CHR ''%'' # u2" and u1: "CHR ''%'' \<notin> set u1"
    by (auto dest: split_list_first)
  let ?X = "CHR ''<'' # CHR ''%'' # y # t"
  from first_percent[OF u1, of "u2 @ ?X"]
  have a: "takeWhile (\<lambda>x. x \<noteq> CHR ''%'') (u @ ?X) = u1"
    "dropWhile (\<lambda>x. x \<noteq> CHR ''%'') (u @ ?X) = CHR ''%'' # u2 @ ?X"
    by (simp_all add: u)
  from first_percent[OF m, of "CHR ''>'' # rest"]
  have b: "takeWhile (\<lambda>x. x \<noteq> CHR ''%'') (m @ ''%>'' @ rest) = m"
    "dropWhile (\<lambda>x. x \<noteq> CHR ''%'') (m @ ''%>'' @ rest) = CHR ''%'' # CHR ''>'' # rest"
    by simp_all
  from a b eq have "u1 = m" and "u2 @ ?X = CHR ''>'' # rest" by simp_all
  then have "u2 \<noteq> []" by auto
  with u \<open>u1 = m\<close> show ?thesis by (cases u2) auto
qed

lemma tag_start_in_prefix:
  assumes 1: "A @ us = ''<%'' @ w @ [x]" and A: "A \<noteq> []" and us: "us \<noteq> []"
    and h: "hd us = CHR ''<''" and w: "\<forall>c\<in>set w. inClass Space c"
  shows "us = [x]"
proof -
  from A obtain a0 A2 where A0: "A = a0 # A2" by (cases A) auto
  with 1 have A2: "A2 @ us = CHR ''%'' # w @ [x]" by simp
  have "A2 \<noteq> []"
  proof
    assume "A2 = []"
    with A2 have "hd us = CHR ''%''" by simp
    with h show False by simp
  qed
  then obtain a1 A3 where "A2 = a1 # A3" by (cases A2) auto
  with A2 have A3: "A3 @ us = w @ [x]" by simp
  have "last (A3 @ us) = last (w @ [x])" "butlast (A3 @ us) = butlast (w @ [x])"
    by (simp_all only: A3)
  with us have l: "last us = x" and bl: "A3 @ butlast us = w"
    by (simp_all add: butlast_append)
  have "butlast us = []"
  proof (rule ccontr)
    assume ne: "butlast us \<noteq> []"
    then have "hd (butlast us) = hd us" using us by (cases us) (auto split: if_splits)
    with h have "hd (butlast us) = CHR ''<''" by simp
    with ne have "CHR ''<'' \<in> set (butlast us)" by (metis hd_in_set)
    moreover have "set w = set A3 \<union> set (butlast us)" by (metis bl set_append)
    ultimately have "CHR ''<'' \<in> set w" by blast
    with w have "inClass Space CHR ''<''" by blast
    then show False by simp
  qed
  with us l show ?thesis by (metis append_butlast_last_id append_Nil)
qed

lemma crossing_split:
  assumes "A @ X = P @ tail"
  obtains (inside) us where "A = P @ us" "us @ X = tail"
    | (across) us where "us \<noteq> []" "A @ us = P" "X = us @ tail"
proof -
  from append_eq_append_conv2[of A X P tail, THEN iffD1, OF assms]
  obtain us where d: "A = P @ us \<and> us @ X = tail \<or> A @ us = P \<and> X = us @ tail" ..
  show thesis
  proof (cases "A = P @ us \<and> us @ X = tail")
    case True
    then show thesis using inside by blast
  next
    case False
    with d have 2: "A @ us = P" "X = us @ tail" by blast+
    show thesis
    proof (cases "us = []")
      case True
      have "A = P @ []" using 2(1) unfolding True by simp
      moreover have "[] @ X = tail" using 2(2) unfolding True by simp
      ultimately show thesis by (rule inside)
    next
      case False
      then show thesis using 2 by (rule across)
    qed
  qed
qed

lemma codeRegex_no_crossing:
  assumes mh: "matchHere codeRegex (A @ CHR ''<'' # CHR ''%'' # y # t) = Some (n, g)"
    and A: "A \<noteq> []" and y: "y \<noteq> CHR ''>''"
  shows "n \<le> length A"
proof -
  let ?X = "CHR ''<'' # CHR ''%'' # y # t"
  from codeRegex_shape[OF mh] obtain w x b w' rest
    where s: "A @ ?X = ''<%'' @ w @ x # b @ w' @ ''%>'' @ rest"
      and n: "n = length w + length b + length w' + 5"
      and w: "\<forall>c\<in>set w. inClass Space c" and b: "CHR ''%'' \<notin> set b"
      and w': "\<forall>c\<in>set w'. inClass Space c"
    by blast
  have nsp: "\<not> inClass Space CHR ''%''" by simp
  have "CHR ''%'' \<notin> set w'" using w' nsp by blast
  with b have m: "CHR ''%'' \<notin> set (b @ w')" by simp
  have "''<%'' @ w @ x # b @ w' @ ''%>'' @ rest = (''<%'' @ w @ [x]) @ ((b @ w') @ ''%>'' @ rest)"
    by simp
  with s have "A @ ?X = (''<%'' @ w @ [x]) @ ((b @ w') @ ''%>'' @ rest)" by (rule trans)
  then show ?thesis
  proof (cases rule: crossing_split)
    case (inside us)
    from closing_inside[OF inside(2) m y] have "length (b @ w') + 2 \<le> length us" .
    moreover have "length A = length w + 3 + length us" unfolding inside(1) by simp
    ultimately show ?thesis unfolding n by simp
  next
    case (across us)
    have "hd (us @ (b @ w') @ ''%>'' @ rest) = hd us" using across(1) by simp
    then have "hd us = hd ?X" unfolding across(3)[symmetric] by simp
    then have h: "hd us = CHR ''<''" by simp
    from tag_start_in_prefix[OF across(2) A across(1) h w] have us: "us = [x]" .
    have "tl ?X = tl (us @ (b @ w') @ ''%>'' @ rest)" by (simp only: across(3)[symmetric])
    then have tl: "CHR ''%'' # y # t = (b @ w') @ ''%>'' @ rest" unfolding us by simp
    have "b @ w' = []"
    proof (cases "b @ w'")
      case Nil
      then show ?thesis .
    next
      case (Cons c cs)
      have "hd (CHR ''%'' # y # t) = hd ((b @ w') @ ''%>'' @ rest)" by (simp only: tl)
      then have "c = CHR ''%''" unfolding Cons by simp
      with Cons m show ?thesis by (metis list.set_intros(1))
    qed
    then have "CHR ''%'' # y # t = ''%>'' @ rest" using tl by simp
    with y show ?thesis by simp
  qed
qed

lemma outputRegex_no_crossing:
  assumes mh: "matchHere outputRegex (A @ CHR ''<'' # CHR ''%'' # y # t) = Some (n, g)"
    and A: "A \<noteq> []" and y: "y \<noteq> CHR ''>''"
  shows "n \<le> length A"
proof -
  let ?X = "CHR ''<'' # CHR ''%'' # y # t"
  from outputRegex_shape[OF mh] obtain w w' rest
    where s: "A @ ?X = ''<%='' @ w @ g @ w' @ ''%>'' @ rest"
      and n: "n = length w + length g + length w' + 5"
      and w: "\<forall>c\<in>set w. inClass Space c" and g: "CHR ''%'' \<notin> set g"
      and w': "\<forall>c\<in>set w'. inClass Space c"
    by blast
  have nsp: "\<not> inClass Space CHR ''%''" by simp
  have "CHR ''%'' \<notin> set w'" using w' nsp by blast
  moreover have "CHR ''%'' \<notin> set w" using w nsp by blast
  ultimately have m: "CHR ''%'' \<notin> set (w @ g @ w')" using g by simp
  have "''<%='' @ w @ g @ w' @ ''%>'' @ rest = ''<%='' @ ((w @ g @ w') @ ''%>'' @ rest)"
    by simp
  with s have "A @ ?X = ''<%='' @ ((w @ g @ w') @ ''%>'' @ rest)" by (rule trans)
  then show ?thesis
  proof (cases rule: crossing_split)
    case (inside us)
    from closing_inside[OF inside(2) m y] have "length (w @ g @ w') + 2 \<le> length us" .
    moreover have "length A = 3 + length us" unfolding inside(1) by simp
    ultimately show ?thesis unfolding n by simp
  next
    case (across us)
    have "hd (us @ (w @ g @ w') @ ''%>'' @ rest) = hd us" using across(1) by simp
    then have "hd us = hd ?X" unfolding across(3)[symmetric] by simp
    then have h: "hd us = CHR ''<''" by simp
    with across(1) have "CHR ''<'' \<in> set us" by (metis hd_in_set)
    then have "CHR ''<'' \<in> set (tl (A @ us))" using A by (cases A) auto
    then have "CHR ''<'' \<in> set (tl ''<%='')" unfolding across(2) .
    then show ?thesis by simp
  qed
qed

lemma pieces_nonempty:
  "s \<noteq> [] \<Longrightarrow> pieces r s =
     (case matchHere r s of
        None \<Rightarrow> Plain (hd s) # pieces r (tl s)
      | Some (n, g) \<Rightarrow>
          if 0 < n then Matched (take n s) # pieces r (drop n s)
          else Plain (hd s) # pieces r (tl s))"
  by (cases s) (auto simp: pieces.simps split: option.splits)

lemma pieces_walk:
  assumes "\<And>B A' n g. A = B @ A' \<Longrightarrow> A' \<noteq> [] \<Longrightarrow> matchHere r (A' @ S) = Some (n, g) \<Longrightarrow>
             n \<le> length A'"
  shows "\<exists>ps. pieces r (A @ S) = ps @ pieces r S \<and> concat (map pieceText ps) = A"
  using assms
proof (induction A rule: length_induct)
  case (1 A)
  show ?case
  proof (cases A)
    case Nil
    then show ?thesis by simp
  next
    case (Cons x xs)
    have tl: "\<exists>ps. pieces r (xs @ S) = ps @ pieces r S \<and> concat (map pieceText ps) = xs"
    proof (rule 1(1)[rule_format])
      show "length xs < length A" using Cons by simp
    next
      fix B A' n g
      assume "xs = B @ A'" "A' \<noteq> []" "matchHere r (A' @ S) = Some (n, g)"
      with 1(2)[of "x # B" A' n g] Cons show "n \<le> length A'" by simp
    qed
    show ?thesis
    proof (cases "matchHere r (A @ S)")
      case None
      from tl obtain ps where "pieces r (xs @ S) = ps @ pieces r S" "concat (map pieceText ps) = xs"
        by blast
      with None Cons have "pieces r (A @ S) = (Plain x # ps) @ pieces r S \<and>
          concat (map pieceText (Plain x # ps)) = A"
        by (simp add: pieces.simps)
      then show ?thesis by blast
    next
      case (Some a)
      obtain n g where a: "a = (n, g)" by (cases a)
      show ?thesis
      proof (cases "0 < n")
        case False
        from tl obtain ps where "pieces r (xs @ S) = ps @ pieces r S" "concat (map pieceText ps) = xs"
          by blast
        with Some a False Cons have "pieces r (A @ S) = (Plain x # ps) @ pieces r S \<and>
            concat (map pieceText (Plain x # ps)) = A"
          by (simp add: pieces.simps)
        then show ?thesis by blast
      next
        case True
        from 1(2)[of "[]" A n g] Some a Cons have le: "n \<le> length A" by simp
        have "\<exists>ps. pieces r (drop n A @ S) = ps @ pieces r S \<and>
                concat (map pieceText ps) = drop n A"
        proof (rule 1(1)[rule_format])
          show "length (drop n A) < length A" using True Cons by simp
        next
          fix B A' n' g'
          assume "drop n A = B @ A'" "A' \<noteq> []" "matchHere r (A' @ S) = Some (n', g')"
          moreover from this(1) have "A = (take n A @ B) @ A'"
            by (metis append.assoc append_take_drop_id)
          ultimately show "n' \<le> length A'" using 1(2) by blast
        qed
        then obtain ps where ps: "pieces r (drop n A @ S) = ps @ pieces r S"
          "concat (map pieceText ps) = drop n A" by blast
        have "A @ S \<noteq> []" using Cons by simp
        with Some a True have "pieces r (A @ S) =
            Matched (take n (A @ S)) # pieces r (drop n (A @ S))"
          by (simp add: pieces_nonempty)
        with le have "pieces r (A @ S) = Matched (take n A) # pieces r (drop n A @ S)"
          by simp
        with ps have "pieces r (A @ S) = (Matched (take n A) # ps) @ pieces r S \<and>
            concat (map pieceText (Matched (take n A) # ps)) = A"
          by simp
        then show ?thesis by blast
      qed
    qed
  qed
qed

section \<open>An assignment and the output tags of its name\<close>

lemma assignTag_match:
  assumes "wellFormedName name" and "CHR ''%'' \<notin> set value"
  shows "matchHere codeRegex (assignTag name value @ t) =
           Some (length (assignTag name value), name @ '' = \"'' @ value @ ''\" '')"
proof -
  let ?body = "name @ '' = \"'' @ value @ ''\" ''"
  from assms(1) have ne: "name \<noteq> []" and tr: "TrimSpace name = name"
    and eq: "CHR ''='' \<notin> set name" and pc: "CHR ''%'' \<notin> set name"
    by (simp_all add: wellFormedName_def)
  have hd: "hd ?body = hd name" using ne by simp
  have 1: "?body \<noteq> []" by simp
  have 2: "\<not> inClass Space (hd ?body)" unfolding hd by (rule TrimSpace_hd[OF tr ne])
  have 3: "hd ?body \<noteq> CHR ''=''" unfolding hd using eq ne by (metis hd_in_set)
  have 4: "CHR ''%'' \<notin> set ?body" using pc assms(2) by simp
  have "assignTag name value @ t = ''<% '' @ ?body @ ''%>'' @ t" by (simp add: assignTag_def)
  moreover have "length (assignTag name value) = length ?body + 5" by (simp add: assignTag_def)
  ultimately show ?thesis using codeRegex_block[OF 1 2 3 4, of t] by (simp only:)
qed

lemma FindStringSubmatch_here:
  assumes "matchHere r s = Some (n, g)" and "s \<noteq> []"
  shows "FindStringSubmatch r s = [take n s, g]"
  using assms by (cases s) simp_all

lemma SplitN2_first:
  assumes "c \<notin> set u"
  shows "SplitN2 (u @ c # v) c = [u, v]"
proof -
  have "dropWhile (\<lambda>x. x \<noteq> c) (u @ c # v) = c # v" using assms by (auto simp: dropWhile_append3)
  moreover have "takeWhile (\<lambda>x. x \<noteq> c) (u @ c # v) = u" using assms by (auto simp: takeWhile_tail)
  ultimately show ?thesis by (simp add: SplitN2_def)
qed

lemma codeCallback_assignTag:
  assumes "wellFormedName name" and "CHR ''%'' \<notin> set value"
  shows "codeCallback data (assignTag name value) = Return ([], data(name \<mapsto> VString value))"
proof -
  let ?body = "name @ '' = \"'' @ value @ ''\" ''"
  let ?T = "assignTag name value"
  from assms(1) have ne: "name \<noteq> []" and tr: "TrimSpace name = name"
    and eq: "CHR ''='' \<notin> set name"
    by (simp_all add: wellFormedName_def)
  have T: "?T \<noteq> []" by (simp add: assignTag_def)
  from assignTag_match[OF assms, of "[]"]
  have "matchHere codeRegex ?T = Some (length ?T, ?body)" by simp
  from FindStringSubmatch_here[OF this T]
  have f: "FindStringSubmatch codeRegex ?T = [?T, ?body]" by simp
  have code: "TrimSpace ?body = name @ '' = \"'' @ value @ ''\"''"
    by (rule TrimSpace_assignment[OF tr ne])
  have c: "Contains (name @ '' = \"'' @ value @ ''\"'') CHR ''=''" by (simp add: Contains_def)
  have "CHR ''='' \<notin> set (name @ '' '')" using eq by simp
  from SplitN2_first[OF this, of "'' \"'' @ value @ ''\"''"]
  have sp: "SplitN2 (name @ '' = \"'' @ value @ ''\"'') CHR ''='' = [name @ '' '', '' \"'' @ value @ ''\"'']"
    by simp
  have n: "TrimSpace (name @ '' '') = name" by (rule TrimSpace_padded_right[OF tr ne])
  have v: "TrimSpace ('' \"'' @ value @ ''\"'') = ''\"'' @ value @ ''\"''" by (rule TrimSpace_quoted)
  have hp: "HasPrefix (''\"'' @ value @ ''\"'') ''\"''" by (simp add: HasPrefix_def)
  have hs: "HasSuffix (''\"'' @ value @ ''\"'') ''\"''" by (simp add: HasSuffix_def)
  show ?thesis
    unfolding codeCallback_def f
    by (simp only: list.case code Let_def c if_True sp n v hp hs) simp
qed

lemma SplitN2_takeWhile:
  assumes "SplitN2 s c = [p0, p1]"
  shows "p0 = takeWhile (\<lambda>x. x \<noteq> c) s"
  using assms by (auto simp: SplitN2_def split: list.splits)

lemma codeCallback_other_name:
  assumes "codeCallback data match = Return (repl, data1)"
    and "name \<notin> set (pieceNames (Matched match))"
  shows "data1 name = data name"
proof (cases "\<exists>m0 m1. FindStringSubmatch codeRegex match = [m0, m1]")
  case False
  then have "codeCallback data match = Return (match, data)"
    by (auto simp: codeCallback_def split: list.splits)
  with assms(1) show ?thesis by simp
next
  case True
  then obtain m0 m1 where f: "FindStringSubmatch codeRegex match = [m0, m1]" by blast
  show ?thesis
  proof (cases "Contains (TrimSpace m1) CHR ''=''")
    case False
    with f have "codeCallback data match = Return ([], data)" by (simp add: codeCallback_def)
    with assms(1) show ?thesis by simp
  next
    case c: True
    show ?thesis
    proof (cases "\<exists>p0 p1. SplitN2 (TrimSpace m1) CHR ''='' = [p0, p1]")
      case False
      with f c have "codeCallback data match = Return ([], data)"
        by (auto simp: codeCallback_def split: list.splits)
      with assms(1) show ?thesis by simp
    next
      case True
      then obtain p0 p1 where sp: "SplitN2 (TrimSpace m1) CHR ''='' = [p0, p1]" by blast
      from SplitN2_takeWhile[OF sp] have p0: "p0 = takeWhile (\<lambda>x. x \<noteq> CHR ''='') (TrimSpace m1)" .
      from assms(2) f c have "name \<noteq> TrimSpace (takeWhile (\<lambda>x. x \<noteq> CHR ''='') (TrimSpace m1))"
        by (simp add: pieceNames_def)
      then have nn: "name \<noteq> TrimSpace p0" unfolding p0 .
      from assms(1) f c sp obtain v where "data1 = data(TrimSpace p0 \<mapsto> v)"
        by (auto simp: codeCallback_def Let_def split: if_splits)
      with nn show ?thesis by simp
    qed
  qed
qed

lemma codePieces_other_name:
  assumes "codePieces data ps = Return (out, data')"
    and "name \<notin> set (concat (map pieceNames ps))"
  shows "data' name = data name"
  using assms
proof (induction data ps arbitrary: out data' rule: codePieces.induct)
  case (1 data)
  then show ?case by simp
next
  case (2 data c ps)
  from "2.prems"(1) obtain out1 where "codePieces data ps = Return (out1, data')"
    by (auto split: outcome.splits)
  moreover from "2.prems"(2) have "name \<notin> set (concat (map pieceNames ps))" by simp
  ultimately show ?case by (rule "2.IH")
next
  case (3 data match ps)
  from "3.prems"(1) obtain repl data1 out1 where cb: "codeCallback data match = Return (repl, data1)"
    and cp: "codePieces data1 ps = Return (out1, data')"
    by (auto split: outcome.splits)
  from "3.prems"(2) have n1: "name \<notin> set (pieceNames (Matched match))"
    and n2: "name \<notin> set (concat (map pieceNames ps))" by simp_all
  from "3.IH"[OF cb refl cp n2] have "data' name = data1 name" .
  also from codeCallback_other_name[OF cb n1] have "data1 name = data name" .
  finally show ?case .
qed

lemma codePieces_append_Return:
  assumes "codePieces data (ps1 @ ps2) = Return (out, data')"
  shows "\<exists>a data1 b. codePieces data ps1 = Return (a, data1) \<and>
           codePieces data1 ps2 = Return (b, data') \<and> out = a @ b"
  using assms unfolding codePieces_append by (auto split: outcome.splits)

lemma pieces_before_assignTag:
  assumes "wellFormedName name" and "CHR ''%'' \<notin> set value"
  shows "\<exists>ps. pieces codeRegex (before @ assignTag name value @ rest) =
           ps @ Matched (assignTag name value) # pieces codeRegex rest"
proof -
  let ?T = "assignTag name value"
  obtain t where T: "?T @ rest = CHR ''<'' # CHR ''%'' # CHR '' '' # t" by (simp add: assignTag_def)
  have "\<exists>ps. pieces codeRegex (before @ ?T @ rest) = ps @ pieces codeRegex (?T @ rest) \<and>
          concat (map pieceText ps) = before"
  proof (rule pieces_walk)
    fix B A' n g
    assume a: "A' \<noteq> []" and m: "matchHere codeRegex (A' @ ?T @ rest) = Some (n, g)"
    have "CHR '' '' \<noteq> CHR ''>''" by simp
    from codeRegex_no_crossing[OF m[unfolded T] a this] show "n \<le> length A'" .
  qed
  then obtain ps where ps: "pieces codeRegex (before @ ?T @ rest) = ps @ pieces codeRegex (?T @ rest)"
    by blast
  have ne: "?T @ rest \<noteq> []" by (simp add: assignTag_def)
  have pos: "0 < length ?T" by (simp add: assignTag_def)
  have "pieces codeRegex (?T @ rest) = Matched ?T # pieces codeRegex rest"
    unfolding pieces_nonempty[OF ne] assignTag_match[OF assms] using pos by simp
  with ps show ?thesis by simp
qed

lemma assignment_in_scope:
  assumes "wellFormedName name" and "CHR ''%'' \<notin> set value"
    and "processCodeExpressions data (before @ assignTag name value @ rest) = Return (executed, data')"
    and "name \<notin> set (assignedNames rest)"
  shows "data' name = Some (VString value)"
proof -
  from pieces_before_assignTag[OF assms(1,2)] obtain ps
    where ps: "pieces codeRegex (before @ assignTag name value @ rest) =
                 ps @ Matched (assignTag name value) # pieces codeRegex rest" by blast
  from assms(3) have "codePieces data (ps @ Matched (assignTag name value) # pieces codeRegex rest) =
      Return (executed, data')"
    unfolding processCodeExpressions_def ps .
  from codePieces_append_Return[OF this] obtain a data1 b
    where "codePieces data1 (Matched (assignTag name value) # pieces codeRegex rest) = Return (b, data')"
    by blast
  then obtain b' where r: "codePieces (data1(name \<mapsto> VString value)) (pieces codeRegex rest) =
      Return (b', data')"
    by (auto simp: codeCallback_assignTag[OF assms(1,2)] split: outcome.splits)
  from assms(4) have "name \<notin> set (concat (map pieceNames (pieces codeRegex rest)))"
    unfolding assignedNames_def .
  from codePieces_other_name[OF r this] show ?thesis by simp
qed

section \<open>An output tag is not touched by the code pass\<close>

lemma noTagOpen_Cons: "x \<noteq> CHR ''<'' \<Longrightarrow> noTagOpen (x # s) = noTagOpen s"
  by (cases s) simp_all

lemma noTagOpen_append:
  assumes "CHR ''%'' \<notin> set u" and "x \<noteq> CHR ''%''"
  shows "noTagOpen (u @ x # s) = noTagOpen (x # s)"
  using assms(1)
proof (induction u)
  case Nil
  show ?case by simp
next
  case (Cons a u)
  obtain y v where y: "u @ x # s = y # v" "y \<noteq> CHR ''%''"
    using Cons.prems assms(2) by (cases u) auto
  have "noTagOpen ((a # u) @ x # s) = noTagOpen (a # y # v)" using y(1) by simp
  also have "\<dots> = noTagOpen (y # v)" using y(2) by simp
  also have "\<dots> = noTagOpen (x # s)" using Cons y(1) by simp
  finally show ?case .
qed

lemma pieces_noTagOpen:
  assumes "\<And>s n g. matchHere r s = Some (n, g) \<Longrightarrow> take 2 s = ''<%''"
    and "noTagOpen (u @ take 1 v)"
  shows "pieces r (u @ v) = map Plain u @ pieces r v"
  using assms(2)
proof (induction u)
  case Nil
  show ?case by simp
next
  case (Cons x u)
  have "matchHere r (x # u @ v) = None"
  proof (cases "matchHere r (x # u @ v)")
    case None
    then show ?thesis .
  next
    case (Some a)
    obtain n g where "a = (n, g)" by (cases a)
    with Some assms(1) have t: "take 2 (x # u @ v) = ''<%''" by blast
    then have x: "x = CHR ''<''" and "take 1 (u @ v) = ''%''" by simp_all
    then obtain w where "u @ take 1 v = CHR ''%'' # w" by (cases u; cases v) auto
    with Cons.prems x show ?thesis by simp
  qed
  moreover have "noTagOpen (u @ take 1 v)" using Cons.prems
    by (cases "u @ take 1 v") (simp_all split: if_splits)
  ultimately show ?case using Cons.IH by (simp add: pieces.simps)
qed

lemma codeRegex_start:
  assumes "matchHere codeRegex s = Some (n, g)"
  shows "take 2 s = ''<%''"
proof -
  from codeRegex_shape[OF assms] obtain t where "s = ''<%'' @ t" by blast
  then show ?thesis by simp
qed

lemma codeRegex_outputTag:
  "matchHere codeRegex (CHR ''<'' # CHR ''%'' # CHR ''='' # t) = None"
proof (cases "matchHere codeRegex (CHR ''<'' # CHR ''%'' # CHR ''='' # t)")
  case None
  then show ?thesis .
next
  case (Some a)
  obtain n g where "a = (n, g)" by (cases a)
  with Some have "matchHere codeRegex (CHR ''<'' # CHR ''%'' # CHR ''='' # t) = Some (n, g)"
    by simp
  from codeRegex_shape[OF this] obtain w x b
    where s: "CHR ''<'' # CHR ''%'' # CHR ''='' # t = ''<%'' @ w @ x # b"
      and w: "\<forall>c\<in>set w. inClass Space c" and x: "x \<noteq> CHR ''=''"
    by blast
  from s have "CHR ''='' # t = w @ x # b" by simp
  then have "hd (w @ x # b) = CHR ''=''" by (metis list.sel(1))
  with w x have False by (cases w) auto
  then show ?thesis ..
qed

lemma outputTag_noTagOpen:
  assumes "CHR ''%'' \<notin> set name"
  shows "noTagOpen (tl (outputTag name) @ take 1 right)"
proof -
  have "tl (outputTag name) @ take 1 right =
          CHR ''%'' # CHR ''='' # CHR '' '' # (name @ CHR '' '' # CHR ''%'' # CHR ''>'' # take 1 right)"
    by (simp add: outputTag_def)
  moreover have "noTagOpen (CHR ''>'' # take 1 right)" by (cases right) simp_all
  ultimately show ?thesis
    by (simp add: noTagOpen_Cons noTagOpen_append[OF assms])
qed

lemma pieces_outputTag_code:
  assumes "CHR ''%'' \<notin> set name"
  shows "\<exists>ps. pieces codeRegex (left @ outputTag name @ right) =
           ps @ map Plain (outputTag name) @ pieces codeRegex right"
proof -
  let ?O = "outputTag name"
  obtain t where O: "?O @ right = CHR ''<'' # CHR ''%'' # CHR ''='' # t" by (simp add: outputTag_def)
  have "\<exists>ps. pieces codeRegex (left @ ?O @ right) = ps @ pieces codeRegex (?O @ right) \<and>
          concat (map pieceText ps) = left"
  proof (rule pieces_walk)
    fix B A' n g
    assume a: "A' \<noteq> []" and m: "matchHere codeRegex (A' @ ?O @ right) = Some (n, g)"
    have "CHR ''='' \<noteq> CHR ''>''" by simp
    from codeRegex_no_crossing[OF m[unfolded O] a this] show "n \<le> length A'" .
  qed
  then obtain ps where ps: "pieces codeRegex (left @ ?O @ right) = ps @ pieces codeRegex (?O @ right)"
    by blast
  have tlO: "tl ?O @ right = CHR ''%'' # CHR ''='' # t" using O by (simp add: outputTag_def)
  have "pieces codeRegex (?O @ right) = Plain CHR ''<'' # pieces codeRegex (tl ?O @ right)"
    unfolding O tlO by (simp add: pieces.simps codeRegex_outputTag)
  also have "pieces codeRegex (tl ?O @ right) = map Plain (tl ?O) @ pieces codeRegex right"
    by (rule pieces_noTagOpen[OF codeRegex_start outputTag_noTagOpen[OF assms]])
  also have "Plain CHR ''<'' # map Plain (tl ?O) @ pieces codeRegex right =
      map Plain ?O @ pieces codeRegex right" by (simp add: outputTag_def)
  finally show ?thesis using ps by simp
qed

lemma outputTag_match:
  assumes "wellFormedName name"
  shows "matchHere outputRegex (outputTag name @ t) = Some (length (outputTag name), name @ '' '')"
proof -
  let ?body = "name @ '' ''"
  from assms(1) have ne: "name \<noteq> []" and tr: "TrimSpace name = name"
    and pc: "CHR ''%'' \<notin> set name"
    by (simp_all add: wellFormedName_def)
  have hd: "hd ?body = hd name" using ne by simp
  have 1: "?body \<noteq> []" by simp
  have 2: "\<not> inClass Space (hd ?body)" unfolding hd by (rule TrimSpace_hd[OF tr ne])
  have 3: "CHR ''%'' \<notin> set ?body" using pc by simp
  have "outputTag name @ t = ''<%= '' @ ?body @ ''%>'' @ t" by (simp add: outputTag_def)
  moreover have "length (outputTag name) = length ?body + 6" by (simp add: outputTag_def)
  ultimately show ?thesis using outputRegex_tag[OF 1 2 3, of t] by (simp only:)
qed

lemma outputCallback_outputTag:
  assumes "wellFormedName name" and "data name = Some v"
  shows "outputCallback data c (outputTag name) = Sprintf_v c v"
proof -
  let ?O = "outputTag name"
  from assms(1) have ne: "name \<noteq> []" and tr: "TrimSpace name = name"
    by (simp_all add: wellFormedName_def)
  have O: "?O \<noteq> []" by (simp add: outputTag_def)
  from outputTag_match[OF assms(1), of "[]"]
  have "matchHere outputRegex ?O = Some (length ?O, name @ '' '')" by simp
  from FindStringSubmatch_here[OF this O]
  have f: "FindStringSubmatch outputRegex ?O = [?O, name @ '' '']" by simp
  have n: "TrimSpace (name @ '' '') = name" by (rule TrimSpace_padded_right[OF tr ne])
  show ?thesis
    unfolding outputCallback_def f by (simp only: list.case n evaluate_def assms(2) option.case)
qed

lemma processOutputTags_outputTag:
  assumes "wellFormedName name" and "data name = Some v"
  shows "\<exists>pre post. processOutputTags data c (left @ outputTag name @ right) =
           pre @ Sprintf_v c v @ post"
proof -
  let ?O = "outputTag name"
  obtain t where O: "?O @ right = CHR ''<'' # CHR ''%'' # CHR ''='' # t" by (simp add: outputTag_def)
  have "\<exists>ps. pieces outputRegex (left @ ?O @ right) = ps @ pieces outputRegex (?O @ right) \<and>
          concat (map pieceText ps) = left"
  proof (rule pieces_walk)
    fix B A' n g
    assume a: "A' \<noteq> []" and m: "matchHere outputRegex (A' @ ?O @ right) = Some (n, g)"
    have "CHR ''='' \<noteq> CHR ''>''" by simp
    from outputRegex_no_crossing[OF m[unfolded O] a this] show "n \<le> length A'" .
  qed
  then obtain ps where ps: "pieces outputRegex (left @ ?O @ right) = ps @ pieces outputRegex (?O @ right)"
    by blast
  have ne: "?O @ right \<noteq> []" by (simp add: outputTag_def)
  have pos: "0 < length ?O" by (simp add: outputTag_def)
  have "pieces outputRegex (?O @ right) = Matched ?O # pieces outputRegex right"
    unfolding pieces_nonempty[OF ne] outputTag_match[OF assms(1)] using pos by simp
  with ps have "processOutputTags data c (left @ ?O @ right) =
      replaceAll (outputCallback data c) ps @ Sprintf_v c v @
      replaceAll (outputCallback data c) (pieces outputRegex right)"
    by (simp add: processOutputTags_def replaceAll_append outputCallback_outputTag[where data=data and v=v, OF assms])
  then show ?thesis by blast
qed

lemma code_pass_keeps_outputTag:
  assumes "CHR ''%'' \<notin> set name"
    and "processCodeExpressions data (left @ outputTag name @ right) = Return (executed, data')"
  shows "\<exists>l r. executed = l @ outputTag name @ r"
proof -
  from pieces_outputTag_code[OF assms(1)] obtain ps
    where ps: "pieces codeRegex (left @ outputTag name @ right) =
                 ps @ map Plain (outputTag name) @ pieces codeRegex right" by blast
  from assms(2) have "codePieces data (ps @ map Plain (outputTag name) @ pieces codeRegex right) =
      Return (executed, data')"
    unfolding processCodeExpressions_def ps .
  from codePieces_append_Return[OF this] obtain a data1 b
    where b: "codePieces data1 (map Plain (outputTag name) @ pieces codeRegex right) = Return (b, data')"
      and e: "executed = a @ b"
    by blast
  from codePieces_append_Return[OF b] obtain a' data2 b'
    where "codePieces data1 (map Plain (outputTag name)) = Return (a', data2)" and "b = a' @ b'"
    by blast
  then have "b = outputTag name @ b'" by (simp add: codePieces_Plain)
  with e show ?thesis by blast
qed

lemma returned_Return:
  assumes "returned r = Some (Return (out, err))"
  shows "\<exists>data'. r = Some (Return (out, err, data'))"
proof -
  from assms obtain x where r: "r = Some x" by (cases r) (auto simp: returned_def)
  with assms show ?thesis by (cases x) (auto simp: returned_def)
qed

text \<open>
  Claim C5 as stated fails when a name is assigned twice: the code blocks run from left to
  right on one scope, so the later assignment replaces the earlier one before any output
  tag is resolved, and the value of the earlier assignment is not in the output.
\<close>

theorem reassigned_value_counterexample:
  "''<% x = \"a\" %><% x = \"b\" %><%= x %>'' = assignTag ''x'' ''a'' @ assignTag ''x'' ''b'' @ outputTag ''x'' \<and>
   wellFormedName ''x'' \<and>
   returned (TemplateProcessor_processTemplate 1 demoFiles demoContext requestData
               ''<% x = \"a\" %><% x = \"b\" %><%= x %>'') = Some (Return (''b'', None)) \<and>
   CHR ''a'' \<notin> set ''b''"
  by code_simp

text \<open>
  Claim C5, amended. The includes are resolved first, then all code blocks from left to
  right, then the output tags, on one scope. So for a well-formed assignment
  \<open><% name = "value" %>\<close> (the value without \<open>%\<close>) that is the last assignment of its name in
  the expanded document, and an output tag \<open><%= name %>\<close> anywhere in that document, before or
  after the assignment: whenever the expansion returns, the name is bound to the value at
  the end of the code pass and the output contains the value verbatim.
\<close>

theorem assignment_visible_everywhere:
  assumes "wellFormedName name" and "CHR ''%'' \<notin> set value"
    and "processIncludes k fs content = Some document"
    and "document = before @ assignTag name value @ rest"
    and "document = left @ outputTag name @ right"
    and "name \<notin> set (assignedNames rest)"
    and "returned (TemplateProcessor_processTemplate k fs c data content) = Some (Return (out, err))"
  shows "(\<exists>data'. TemplateProcessor_processTemplate k fs c data content =
                    Some (Return (out, err, data')) \<and>
                  data' name = Some (VString value)) \<and>
         (\<exists>pre post. out = pre @ value @ post)"
proof -
  from returned_Return[OF assms(7)] obtain data'
    where r: "TemplateProcessor_processTemplate k fs c data content = Some (Return (out, err, data'))"
    by blast
  with assms(3) obtain executed
    where code: "processCodeExpressions data document = Return (executed, data')"
      and out: "out = processOutputTags data' c executed"
    by (auto simp: TemplateProcessor_processTemplate_def split: outcome.splits)
  from assignment_in_scope[OF assms(1,2) code[unfolded assms(4)] assms(6)]
  have d: "data' name = Some (VString value)" .
  from assms(1) have "CHR ''%'' \<notin> set name" by (simp add: wellFormedName_def)
  from code_pass_keeps_outputTag[OF this code[unfolded assms(5)]] obtain l r
    where "executed = l @ outputTag name @ r" by blast
  with processOutputTags_outputTag[where data=data' and v="VString value" and c=c and left=l
      and right=r, OF assms(1) d] out
  have "\<exists>pre post. out = pre @ value @ post" by simp
  with r d show ?thesis by blast
qed

theorem assignment_visible_everywhere_witness:
  "returned (TemplateProcessor_processTemplate 1 demoFiles demoContext requestData
               ''<p><%= who %></p><% who = \"World\" %>'') = Some (Return (''<p>World</p>'', None)) \<and>
   (\<exists>data'. TemplateProcessor_processTemplate 1 demoFiles demoContext requestData
               ''<p><%= who %></p><% who = \"World\" %>'' =
                Some (Return (''<p>World</p>'', None, data')) \<and>
             data' ''who'' = Some (VString ''World'')) \<and>
   (\<exists>pre post. ''<p>World</p>'' = pre @ ''World'' @ post)"
proof -
  let ?doc = "''<p><%= who %></p><% who = \"World\" %>''"
  have 1: "wellFormedName ''who''" by code_simp
  have 2: "CHR ''%'' \<notin> set ''World''" by simp
  have 3: "processIncludes 1 demoFiles ?doc = Some ?doc" by code_simp
  have 4: "?doc = ''<p><%= who %></p>'' @ assignTag ''who'' ''World'' @ []"
    by (simp add: assignTag_def)
  have 5: "?doc = ''<p>'' @ outputTag ''who'' @ ''</p><% who = \"World\" %>''"
    by (simp add: outputTag_def)
  have 6: "''who'' \<notin> set (assignedNames [])" by code_simp
  have 7: "returned (TemplateProcessor_processTemplate 1 demoFiles demoContext requestData ?doc) =
             Some (Return (''<p>World</p>'', None))" by code_simp
  from assignment_visible_everywhere[OF 1 2 3 4 5 6 7] 7 show ?thesis by simp
qed

section \<open>A failed include in the whole expansion\<close>








end
